theory Spec2Isabelle
  imports Complex_Main
begin

section \<open>A* maze solver (A\_star.cpp): data model\<close>

text \<open>
  The solver computes with C++ \<^verbatim>\<open>double\<close>. The operations it uses on doubles are taken
  as parameters: conversion from \<^verbatim>\<open>int\<close>, \<^verbatim>\<open>+\<close>, \<^verbatim>\<open><\<close>, \<^verbatim>\<open>sqrt\<close> and
  \<^verbatim>\<open>pow(v, 2)\<close>. A theorem that assumes nothing of them holds for whatever they compute
  (IEEE arithmetic included); the theorem on path lengths states what it needs of them.
\<close>

record 'd double_ops =
  d_of_int :: "int \<Rightarrow> 'd"
  d_add :: "'d \<Rightarrow> 'd \<Rightarrow> 'd"
  d_less :: "'d \<Rightarrow> 'd \<Rightarrow> bool"
  d_sqrt :: "'d \<Rightarrow> 'd"
  d_pow2 :: "'d \<Rightarrow> 'd"

text \<open>Exact real arithmetic, used to run the model on concrete inputs.\<close>

definition exact_ops :: "real double_ops" where
  "exact_ops = \<lparr>d_of_int = real_of_int, d_add = (+), d_less = (<), d_sqrt = sqrt,
                 d_pow2 = (\<lambda>v. v * v)\<rparr>"

text \<open>
  \<^verbatim>\<open>struct Node { int x, y; double f, g, h; Node* parent; }\<close>. A node is never
  written after \<^verbatim>\<open>new Node{...}\<close> and pointers to nodes are only dereferenced or
  compared with \<^verbatim>\<open>nullptr\<close>, so a \<^verbatim>\<open>Node*\<close> is modelled by the node it points
  to and \<^verbatim>\<open>nullptr\<close> by \<open>None\<close>. The aggregate initialiser fills the fields in
  declaration order: x, y, f, g, h, parent.
\<close>

datatype 'd Node =
  Node (node_x: int) (node_y: int) (node_f: 'd) (node_g: 'd) (node_h: 'd)
       (parent: "'d Node option")

datatype error = OutOfRange | SignedOverflow | BadAlloc

type_synonym Grid = "int list list"
type_synonym Coord = "int \<times> int"

text \<open>Directions for movement: \<^verbatim>\<open>dx[8]\<close>, \<^verbatim>\<open>dy[8]\<close>.\<close>

definition dx :: "int list" where
  "dx = [-1, 1, 0, 0, -1, -1, 1, 1]"

definition dy :: "int list" where
  "dy = [0, 0, -1, 1, -1, 1, -1, 1]"

text \<open>
  C++ \<^verbatim>\<open>int\<close> has 32 bits. Overflow of its arithmetic is undefined behaviour, an
  error of the model. A \<^verbatim>\<open>size_t\<close> is converted to \<^verbatim>\<open>int\<close> by taking the value
  modulo \<open>2^32\<close>, read as signed.
\<close>

definition INT_MAX :: int where
  "INT_MAX = 2147483647"

definition INT_MIN :: int where
  "INT_MIN = - 2147483648"

definition size_to_int :: "nat \<Rightarrow> int" where
  "size_to_int n = (let m = int n mod 2 ^ 32 in if m < 2 ^ 31 then m else m - 2 ^ 32)"

text \<open>
  \<^verbatim>\<open>sqrt(pow(x1 - x2, 2) + pow(y1 - y2, 2))\<close>. The two differences are computed in
  \<^verbatim>\<open>int\<close> before \<^verbatim>\<open>pow\<close> converts them: \<open>heuristic_ok\<close> says that they do not
  overflow, and \<open>heuristic\<close> is the value returned then.
\<close>

definition heuristic_ok :: "int \<Rightarrow> int \<Rightarrow> int \<Rightarrow> int \<Rightarrow> bool" where
  "heuristic_ok x1 y1 x2 y2 =
     (INT_MIN \<le> x1 - x2 \<and> x1 - x2 \<le> INT_MAX \<and> INT_MIN \<le> y1 - y2 \<and> y1 - y2 \<le> INT_MAX)"

definition heuristic :: "'d double_ops \<Rightarrow> int \<Rightarrow> int \<Rightarrow> int \<Rightarrow> int \<Rightarrow> 'd" where
  "heuristic F x1 y1 x2 y2 =
     d_sqrt F (d_add F (d_pow2 F (d_of_int F (x1 - x2))) (d_pow2 F (d_of_int F (y1 - y2))))"

text \<open>
  \<^verbatim>\<open>x >= 0 && x < rows && y >= 0 && y < cols && grid[x][y] == 0\<close>. The conjunction
  short-circuits; \<^verbatim>\<open>grid[x][y]\<close> outside the vectors is undefined behaviour, an error
  of the model.
\<close>

definition isValid :: "int \<Rightarrow> int \<Rightarrow> int \<Rightarrow> int \<Rightarrow> Grid \<Rightarrow> error + bool" where
  "isValid x y rows cols grid =
     (if x \<ge> 0 \<and> x < rows \<and> y \<ge> 0 \<and> y < cols then
        (if nat x < length grid \<and> nat y < length (grid ! nat x)
         then Inr (grid ! nat x ! nat y = 0)
         else Inl OutOfRange)
      else Inr False)"

text \<open>
  \<^verbatim>\<open>reconstructPath\<close>: the loop pushes the coordinates while following
  \<^verbatim>\<open>parent\<close> until \<^verbatim>\<open>nullptr\<close>, then the vector is reversed.
\<close>

fun follow_parents :: "'d Node option \<Rightarrow> Coord list" where
  "follow_parents None = []"
| "follow_parents (Some (Node x y f g h p)) = (x, y) # follow_parents p"

definition reconstructPath :: "'d Node option \<Rightarrow> Coord list" where
  "reconstructPath goal = rev (follow_parents goal)"


section \<open>The search\<close>

text \<open>
  The state of one call of \<^verbatim>\<open>aStarSearch\<close>. The grid is passed by non-const
  reference, so it is part of what the call could change. \<^verbatim>\<open>closed\<close> and
  \<^verbatim>\<open>allNodes\<close> are \<open>rows \<times> cols\<close> matrices indexed by coordinates: \<open>closed\<close> is
  the set of coordinates whose entry is \<^verbatim>\<open>true\<close>, \<open>allNodes\<close> maps a coordinate to
  its entry unless that is \<^verbatim>\<open>nullptr\<close>. An index outside \<open>rows \<times> cols\<close> is
  undefined behaviour and checked where the source indexes without a test.
  \<open>allocated\<close> lists the nodes created by \<^verbatim>\<open>new\<close> and not deleted, in the order of their
  creation: \<^verbatim>\<open>new\<close> appends the node and \<^verbatim>\<open>delete\<close> removes one occurrence of it.
\<close>

record 'd search_state =
  st_grid :: Grid
  openList :: "'d Node list"
  closed :: "Coord set"
  allNodes :: "Coord \<rightharpoonup> 'd Node"
  allocated :: "'d Node list"

definition in_range :: "int \<Rightarrow> int \<Rightarrow> int \<Rightarrow> int \<Rightarrow> bool" where
  "in_range x y rows cols = (0 \<le> x \<and> x < rows \<and> 0 \<le> y \<and> y < cols)"

text \<open>
  \<^verbatim>\<open>openList\<close> is a \<^verbatim>\<open>std::priority_queue\<close> whose comparison is
  \<^verbatim>\<open>a->f > b->f\<close>: \<^verbatim>\<open>top()\<close> is an element such that no element has a smaller
  \<open>f\<close>. Which of several such elements it is depends on the library's heap layout;
  that choice is the parameter \<open>tie\<close>. The queue's contents are kept in insertion
  order. Should the comparison single out no element, the heap still returns one of
  its elements. The queue never holds the same nodes twice during a search: the nodes
  popped in between would be the nodes pushed in between, yet a pushed node has a popped
  node as parent, and a popped node with the shortest chain of parents has none of them
  as parent. Hence whatever a heap chooses along a search is a function of the contents.
\<close>

definition pq_push :: "'d Node \<Rightarrow> 'd Node list \<Rightarrow> 'd Node list" where
  "pq_push n q = q @ [n]"

definition top_candidates :: "'d double_ops \<Rightarrow> 'd Node list \<Rightarrow> nat list" where
  "top_candidates F q =
     filter (\<lambda>i. list_all (\<lambda>m. \<not> d_less F (node_f m) (node_f (q ! i))) q) [0..<length q]"

definition pq_top_index :: "'d double_ops \<Rightarrow> ('d Node list \<Rightarrow> nat) \<Rightarrow> 'd Node list \<Rightarrow> nat" where
  "pq_top_index F tie q =
     (let cs = top_candidates F q
      in if cs = [] then tie q mod length q else cs ! (tie q mod length cs))"

text \<open>A choice used to run the model on concrete inputs.\<close>

definition tie_first :: "'d Node list \<Rightarrow> nat" where
  "tie_first q = 0"

definition pq_remove :: "nat \<Rightarrow> 'd Node list \<Rightarrow> 'd Node list" where
  "pq_remove i q = take i q @ drop (Suc i) q"

text \<open>
  One pass of the body of \<^verbatim>\<open>for (int i = 0; i < 8; i++)\<close>, for the offset
  \<open>(dx[i], dy[i])\<close>. \<open>current\<close> is inside the matrix when the loop runs, so
  \<^verbatim>\<open>current->x + dx[i]\<close> and the differences in
  \<^verbatim>\<open>heuristic(current->x, current->y, newX, newY)\<close> stay within \<^verbatim>\<open>int\<close>; the
  differences in \<^verbatim>\<open>heuristic(newX, newY, goal.first, goal.second)\<close> need not.
\<close>

definition visit_neighbor ::
  "'d double_ops \<Rightarrow> int \<Rightarrow> int \<Rightarrow> Coord \<Rightarrow> 'd Node \<Rightarrow> int \<times> int \<Rightarrow> 'd search_state
     \<Rightarrow> error + 'd search_state" where
  "visit_neighbor F rows cols goal current off st =
     (let newX = node_x current + fst off;
          newY = node_y current + snd off
      in case isValid newX newY rows cols (st_grid st) of
           Inl e \<Rightarrow> Inl e
         | Inr v \<Rightarrow>
             if \<not> v \<or> (newX, newY) \<in> closed st then Inr st
             else if \<not> heuristic_ok newX newY (fst goal) (snd goal) then Inl SignedOverflow
             else
               let gNew = d_add F (node_g current)
                            (heuristic F (node_x current) (node_y current) newX newY);
                   hNew = heuristic F newX newY (fst goal) (snd goal);
                   fNew = d_add F gNew hNew;
                   neighbor = Node newX newY fNew gNew hNew (Some current)
               in case allNodes st (newX, newY) of
                    None \<Rightarrow>
                      Inr (st\<lparr>openList := pq_push neighbor (openList st),
                              allNodes := (allNodes st)((newX, newY) \<mapsto> neighbor),
                              allocated := allocated st @ [neighbor]\<rparr>)
                  | Some old \<Rightarrow>
                      if d_less F fNew (node_f old)
                      then Inr (st\<lparr>openList := pq_push neighbor (openList st),
                                   allNodes := (allNodes st)((newX, newY) \<mapsto> neighbor),
                                   allocated := allocated st @ [neighbor]\<rparr>)
                      else Inr st)"

fun expand ::
  "'d double_ops \<Rightarrow> int \<Rightarrow> int \<Rightarrow> Coord \<Rightarrow> 'd Node \<Rightarrow> (int \<times> int) list \<Rightarrow> 'd search_state
     \<Rightarrow> error + 'd search_state" where
  "expand F rows cols goal current [] st = Inr st"
| "expand F rows cols goal current (off # offs) st =
     (case visit_neighbor F rows cols goal current off st of
        Inl e \<Rightarrow> Inl e
      | Inr st' \<Rightarrow> expand F rows cols goal current offs st')"

definition offsets :: "(int \<times> int) list" where
  "offsets = zip dx dy"


text \<open>
  The loop \<^verbatim>\<open>while (!openList.empty())\<close>. It returns the state it stops in and
  \<^verbatim>\<open>goalNode\<close>. \<^verbatim>\<open>closed[current->x][current->y] = true\<close> outside the matrix is
  undefined behaviour.
\<close>

function search_loop ::
  "'d double_ops \<Rightarrow> ('d Node list \<Rightarrow> nat) \<Rightarrow> int \<Rightarrow> int \<Rightarrow> Coord \<Rightarrow> 'd search_state
     \<Rightarrow> error + ('d search_state \<times> 'd Node option)" where
  "search_loop F tie rows cols goal st =
     (if openList st = [] then Inr (st, None)
      else
        let i = pq_top_index F tie (openList st);
            current = openList st ! i;
            st1 = st\<lparr>openList := pq_remove i (openList st)\<rparr>
        in if node_x current = fst goal \<and> node_y current = snd goal
           then Inr (st1, Some current)
           else if \<not> in_range (node_x current) (node_y current) rows cols
           then Inl OutOfRange
           else
             (case expand F rows cols goal current offsets
                     (st1\<lparr>closed := insert (node_x current, node_y current) (closed st1)\<rparr>) of
                Inl e \<Rightarrow> Inl e
              | Inr st2 \<Rightarrow> search_loop F tie rows cols goal st2))"
  by pat_completeness auto

text \<open>The quantities that decrease along the loop: the cells of the matrix not yet
  closed, then the queued nodes whose cell is closed already.\<close>

definition node_pos :: "'d Node \<Rightarrow> Coord" where
  "node_pos n = (node_x n, node_y n)"

definition stale :: "'d search_state \<Rightarrow> nat" where
  "stale st = length (filter (\<lambda>n. node_pos n \<in> closed st) (openList st))"

definition unclosed :: "int \<Rightarrow> int \<Rightarrow> 'd search_state \<Rightarrow> nat" where
  "unclosed rows cols st = card (({0..<rows} \<times> {0..<cols}) - closed st)"

text \<open>\<^verbatim>\<open>int rows = grid.size(); int cols = grid[0].size();\<close>\<close>

definition grid_rows :: "Grid \<Rightarrow> int" where
  "grid_rows g = size_to_int (length g)"

definition grid_cols :: "Grid \<Rightarrow> int" where
  "grid_cols g = size_to_int (length (g ! 0))"

text \<open>
  \<^verbatim>\<open>aStarSearch\<close>, first up to the end of the loop. \<^verbatim>\<open>grid[0]\<close> of an empty grid
  and \<^verbatim>\<open>allNodes[start.first][start.second]\<close> outside the matrix are undefined
  behaviour; the constructors of \<^verbatim>\<open>closed\<close> and \<^verbatim>\<open>allNodes\<close> throw when
  \<^verbatim>\<open>rows\<close> or \<^verbatim>\<open>cols\<close> is negative. The start node is
  \<^verbatim>\<open>Node{x, y, 0, 0, heuristic(...), nullptr}\<close>.
\<close>

definition aStarSearch_run ::
  "'d double_ops \<Rightarrow> ('d Node list \<Rightarrow> nat) \<Rightarrow> Grid \<Rightarrow> Coord \<Rightarrow> Coord
     \<Rightarrow> error + ('d search_state \<times> 'd Node option)" where
  "aStarSearch_run F tie g start goal =
     (if g = [] then Inl OutOfRange
      else
        let rows = grid_rows g;
            cols = grid_cols g;
            startNode = Node (fst start) (snd start) (d_of_int F 0) (d_of_int F 0)
                          (heuristic F (fst start) (snd start) (fst goal) (snd goal)) None
        in if rows < 0 \<or> cols < 0 then Inl BadAlloc
           else if \<not> heuristic_ok (fst start) (snd start) (fst goal) (snd goal)
           then Inl SignedOverflow
           else if \<not> in_range (fst start) (snd start) rows cols then Inl OutOfRange
           else search_loop F tie rows cols goal
                  \<lparr>st_grid = g, openList = pq_push startNode [], closed = {},
                   allNodes = [start \<mapsto> startNode], allocated = [startNode]\<rparr>)"

text \<open>\<^verbatim>\<open>if (goalNode) path = reconstructPath(goalNode); return path;\<close>\<close>

definition aStarSearch ::
  "'d double_ops \<Rightarrow> ('d Node list \<Rightarrow> nat) \<Rightarrow> Grid \<Rightarrow> Coord \<Rightarrow> Coord \<Rightarrow> error + Coord list" where
  "aStarSearch F tie g start goal =
     (case aStarSearch_run F tie g start goal of
        Inl e \<Rightarrow> Inl e
      | Inr (st, goalNode) \<Rightarrow>
          Inr (if goalNode \<noteq> None then reconstructPath goalNode else []))"

text \<open>
  The clean up before \<^verbatim>\<open>return path\<close>:
  \<^verbatim>\<open>for (auto& row : allNodes) for (auto node : row) delete node;\<close>
  It deletes what the entries of the matrix point to; \<^verbatim>\<open>delete\<close> of
  \<^verbatim>\<open>nullptr\<close> does nothing.
\<close>

definition delete_node :: "'d Node option \<Rightarrow> 'd Node list \<Rightarrow> 'd Node list" where
  "delete_node p heap = (case p of None \<Rightarrow> heap | Some n \<Rightarrow> remove1 n heap)"

definition cleanup :: "int \<Rightarrow> int \<Rightarrow> 'd search_state \<Rightarrow> 'd search_state" where
  "cleanup rows cols st =
     st\<lparr>allocated :=
          foldl (\<lambda>heap c. delete_node (allNodes st c) heap) (allocated st)
            (List.product (map int [0..<nat rows]) (map int [0..<nat cols]))\<rparr>"

text \<open>The state in which \<^verbatim>\<open>aStarSearch\<close> returns.\<close>

definition aStarSearch_final ::
  "'d double_ops \<Rightarrow> ('d Node list \<Rightarrow> nat) \<Rightarrow> Grid \<Rightarrow> Coord \<Rightarrow> Coord
     \<Rightarrow> error + 'd search_state" where
  "aStarSearch_final F tie g start goal =
     (case aStarSearch_run F tie g start goal of
        Inl e \<Rightarrow> Inl e
      | Inr (st, goalNode) \<Rightarrow> Inr (cleanup (grid_rows g) (grid_cols g) st))"

section \<open>One maze and the statistics\<close>

text \<open>The three shared counters; C++ \<^verbatim>\<open>int\<close>, whose overflow is undefined behaviour.
  What follows is one call of \<^verbatim>\<open>solveMaze\<close> as the thread that runs it executes it
  when no other thread writes the counters meanwhile; the parallel loop of \<^verbatim>\<open>main\<close>,
  where the calls run on several threads, is not modelled.\<close>

record GlobalStats =
  totalPathLength :: int
  successfulMazes :: int
  mazeAttempts :: int

definition int_add :: "int \<Rightarrow> int \<Rightarrow> error + int" where
  "int_add a b = (if INT_MIN \<le> a + b \<and> a + b \<le> INT_MAX then Inr (a + b) else Inl SignedOverflow)"

text \<open>
  The updates at the end of \<^verbatim>\<open>solveMaze\<close>:
  \<^verbatim>\<open>mazeAttempts++; totalPathLength += pathLen; if (pathLen > 0) successfulMazes++;\<close>
\<close>

definition record_attempt :: "int \<Rightarrow> GlobalStats \<Rightarrow> error + GlobalStats" where
  "record_attempt pathLen s =
     (case int_add (mazeAttempts s) 1 of
        Inl e \<Rightarrow> Inl e
      | Inr a \<Rightarrow>
         (case int_add (totalPathLength s) pathLen of
            Inl e \<Rightarrow> Inl e
          | Inr t \<Rightarrow>
             if pathLen > 0 then
               (case int_add (successfulMazes s) 1 of
                  Inl e \<Rightarrow> Inl e
                | Inr k \<Rightarrow> Inr \<lparr>totalPathLength = t, successfulMazes = k, mazeAttempts = a\<rparr>)
             else Inr \<lparr>totalPathLength = t, successfulMazes = successfulMazes s,
                       mazeAttempts = a\<rparr>))"

definition no_stats :: GlobalStats where
  "no_stats = \<lparr>totalPathLength = 0, successfulMazes = 0, mazeAttempts = 0\<rparr>"

text \<open>
  \<^verbatim>\<open>solveMaze(rows, cols)\<close>. The values \<^verbatim>\<open>rand()\<close> returns are the sequence
  \<open>rnd\<close>; \<open>k\<close> counts the calls made so far. Each pass of the obstacle loop draws
  \<^verbatim>\<open>x = rand() % rows\<close>, \<^verbatim>\<open>y = rand() % cols\<close> and sets \<^verbatim>\<open>grid[x][y] = 1\<close>.
  A negative size makes the vector constructor throw. The path length is
  \<^verbatim>\<open>static_cast<int>(path.size())\<close>.
\<close>

fun random_obstacles :: "(nat \<Rightarrow> nat) \<Rightarrow> int \<Rightarrow> int \<Rightarrow> nat \<Rightarrow> nat \<Rightarrow> Grid \<Rightarrow> Grid" where
  "random_obstacles rnd rows cols k 0 g = g"
| "random_obstacles rnd rows cols k (Suc n) g =
     (let x = rnd k mod nat rows;
          y = rnd (k + 1) mod nat cols
      in random_obstacles rnd rows cols (k + 2) n (g[x := (g ! x)[y := 1]]))"

definition solveMaze ::
  "'d double_ops \<Rightarrow> ('d Node list \<Rightarrow> nat) \<Rightarrow> (nat \<Rightarrow> nat) \<Rightarrow> int \<Rightarrow> int \<Rightarrow> nat \<times> GlobalStats
     \<Rightarrow> error + (nat \<times> GlobalStats)" where
  "solveMaze F tie rnd rows cols ks =
     (if rows < 0 \<or> cols < 0 then Inl BadAlloc
      else if rows * cols > INT_MAX then Inl SignedOverflow
      else
        let n = nat (rows * cols div 5);
            g = random_obstacles rnd rows cols (fst ks) n
                  (replicate (nat rows) (replicate (nat cols) 0))
        in case aStarSearch F tie g (0, 0) (rows - 1, cols - 1) of
             Inl e \<Rightarrow> Inl e
           | Inr path \<Rightarrow>
               (case record_attempt (size_to_int (length path)) (snd ks) of
                  Inl e \<Rightarrow> Inl e
                | Inr s' \<Rightarrow> Inr (fst ks + 2 * n, s')))"

section \<open>Termination of the search loop\<close>

lemma visit_neighbor_frame:
  assumes "visit_neighbor F rows cols goal current off st = Inr st'"
  shows "st_grid st' = st_grid st \<and> closed st' = closed st \<and>
         (\<exists>new. openList st' = openList st @ new \<and> (\<forall>n\<in>set new. node_pos n \<notin> closed st))"
  using assms
  by (auto simp: visit_neighbor_def Let_def pq_push_def node_pos_def
           split: sum.splits if_splits option.splits)

lemma expand_frame:
  assumes "expand F rows cols goal current offs st = Inr st'"
  shows "st_grid st' = st_grid st \<and> closed st' = closed st \<and>
         (\<exists>new. openList st' = openList st @ new \<and> (\<forall>n\<in>set new. node_pos n \<notin> closed st))"
  using assms
proof (induction offs arbitrary: st)
  case Nil
  then show ?case by simp
next
  case (Cons off offs)
  from Cons.prems obtain st1 where
    v: "visit_neighbor F rows cols goal current off st = Inr st1" and
    e: "expand F rows cols goal current offs st1 = Inr st'"
    by (auto split: sum.splits)
  from visit_neighbor_frame[OF v] Cons.IH[OF e] show ?case
    by auto
qed

lemma pq_top_index_less: "q \<noteq> [] \<Longrightarrow> pq_top_index F tie q < length q"
proof -
  assume q: "q \<noteq> []"
  have sub: "set (top_candidates F q) \<subseteq> {0..<length q}"
    by (auto simp: top_candidates_def)
  show ?thesis
  proof (cases "top_candidates F q = []")
    case True
    with q show ?thesis by (simp add: pq_top_index_def)
  next
    case False
    then have "top_candidates F q ! (tie q mod length (top_candidates F q))
                 \<in> set (top_candidates F q)"
      by (intro nth_mem) simp
    with sub have "top_candidates F q ! (tie q mod length (top_candidates F q)) < length q"
      by fastforce
    with False show ?thesis by (simp add: pq_top_index_def Let_def)
  qed
qed

lemma filter_pq_remove:
  assumes "i < length q" "P (q ! i)"
  shows "length (filter P (pq_remove i q)) < length (filter P q)"
proof -
  have "q = take i q @ (q ! i) # drop (Suc i) q"
    using assms(1) by (simp add: id_take_nth_drop)
  then have "filter P q = filter P (take i q) @ (q ! i) # filter P (drop (Suc i) q)"
    using assms(2) by (metis filter.simps(2) filter_append)
  then show ?thesis by (simp add: pq_remove_def)
qed

termination search_loop
proof (relation "inv_image (less_than <*lex*> less_than)
          (\<lambda>(F, tie, rows, cols, goal, st). (unclosed rows cols st, stale st))", goal_cases)
  case 1
  then show ?case by (intro wf_inv_image wf_lex_prod wf_less_than)
next
  case (2 F tie rows cols goal st i current st1 st2)
  let ?c = "(node_x current, node_y current)"
  have il: "i < length (openList st)" using 2 by (simp add: pq_top_index_less)
  have rng: "?c \<in> {0..<rows} \<times> {0..<cols}" using 2 by (auto simp: in_range_def)
  from expand_frame[OF 2(7)] 2(4) obtain new where
    cl: "closed st2 = insert ?c (closed st)" and
    op: "openList st2 = pq_remove i (openList st) @ new" and
    nw: "\<forall>n\<in>set new. node_pos n \<notin> insert ?c (closed st)"
    by auto
  show ?case
  proof (cases "?c \<in> closed st")
    case True
    then have c2: "closed st2 = closed st" using cl by auto
    have "filter (\<lambda>n. node_pos n \<in> closed st) new = []"
      using nw by (auto simp: filter_empty_conv)
    moreover have "length (filter (\<lambda>n. node_pos n \<in> closed st) (pq_remove i (openList st)))
        < length (filter (\<lambda>n. node_pos n \<in> closed st) (openList st))"
      using il True 2(3) by (intro filter_pq_remove) (auto simp: node_pos_def)
    ultimately have "stale st2 < stale st"
      by (simp add: stale_def c2 op)
    then show ?thesis by (simp add: unclosed_def c2)
  next
    case False
    have fin: "finite (({0..<rows} \<times> {0..<cols}) - closed st)" by simp
    have "({0..<rows} \<times> {0..<cols}) - closed st2 \<subset> ({0..<rows} \<times> {0..<cols}) - closed st"
      using rng False cl by auto
    then have "unclosed rows cols st2 < unclosed rows cols st"
      unfolding unclosed_def using fin by (intro psubset_card_mono)
    then show ?thesis by simp
  qed
qed

declare search_loop.simps [simp del]

section \<open>Reasoning about the search loop\<close>

lemma search_loop_empty:
  "openList st = [] \<Longrightarrow> search_loop F tie rows cols goal st = Inr (st, None)"
  by (subst search_loop.simps) simp

lemma search_loop_found:
  assumes "openList st \<noteq> []" "i = pq_top_index F tie (openList st)"
    "node_pos (openList st ! i) = goal"
  shows "search_loop F tie rows cols goal st =
           Inr (st\<lparr>openList := pq_remove i (openList st)\<rparr>, Some (openList st ! i))"
  using assms by (subst search_loop.simps) (auto simp: node_pos_def Let_def)

lemma search_loop_out:
  assumes "openList st \<noteq> []" "i = pq_top_index F tie (openList st)"
    "node_pos (openList st ! i) \<noteq> goal"
    "\<not> in_range (node_x (openList st ! i)) (node_y (openList st ! i)) rows cols"
  shows "search_loop F tie rows cols goal st = Inl OutOfRange"
  using assms by (subst search_loop.simps) (auto simp: node_pos_def Let_def)

lemma search_loop_step:
  assumes "openList st \<noteq> []" "i = pq_top_index F tie (openList st)"
    "node_pos (openList st ! i) \<noteq> goal"
    "in_range (node_x (openList st ! i)) (node_y (openList st ! i)) rows cols"
  shows "search_loop F tie rows cols goal st =
           (case expand F rows cols goal (openList st ! i) offsets
                   (st\<lparr>openList := pq_remove i (openList st),
                       closed := insert (node_pos (openList st ! i)) (closed st)\<rparr>) of
              Inl e \<Rightarrow> Inl e
            | Inr st2 \<Rightarrow> search_loop F tie rows cols goal st2)"
  using assms by (subst search_loop.simps) (auto simp: node_pos_def Let_def)

lemma search_loop_total:
  assumes init: "I st"
    and empty: "\<And>s. I s \<Longrightarrow> openList s = [] \<Longrightarrow> Q s None"
    and found: "\<And>s i. I s \<Longrightarrow> i < length (openList s) \<Longrightarrow> node_pos (openList s ! i) = goal
                 \<Longrightarrow> i = pq_top_index F tie (openList s)
                 \<Longrightarrow> Q (s\<lparr>openList := pq_remove i (openList s)\<rparr>) (Some (openList s ! i))"
    and step: "\<And>s i. I s \<Longrightarrow> i < length (openList s) \<Longrightarrow> node_pos (openList s ! i) \<noteq> goal
                 \<Longrightarrow> i = pq_top_index F tie (openList s)
                 \<Longrightarrow> in_range (node_x (openList s ! i)) (node_y (openList s ! i)) rows cols \<and>
                     (\<exists>s2. expand F rows cols goal (openList s ! i) offsets
                              (s\<lparr>openList := pq_remove i (openList s),
                                 closed := insert (node_pos (openList s ! i)) (closed s)\<rparr>) = Inr s2
                           \<and> I s2)"
  shows "\<exists>st' r. search_loop F tie rows cols goal st = Inr (st', r) \<and> Q st' r"
  using init empty found step
proof (induction F tie rows cols goal st rule: search_loop.induct)
  case (1 F tie rows cols goal st)
  note init = "1.prems"(1) and empty = "1.prems"(2) and found = "1.prems"(3)
    and step = "1.prems"(4)
  show ?case
  proof (cases "openList st = []")
    case True
    then show ?thesis using init empty by (simp add: search_loop_empty)
  next
    case ne: False
    define i where "i = pq_top_index F tie (openList st)"
    have il: "i < length (openList st)" using ne by (simp add: i_def pq_top_index_less)
    show ?thesis
    proof (cases "node_pos (openList st ! i) = goal")
      case True
      then show ?thesis
        using search_loop_found[OF ne i_def True] found[OF init il True i_def] by simp
    next
      case ng: False
      from step[OF init il ng i_def] obtain s2 where
        rng: "in_range (node_x (openList st ! i)) (node_y (openList st ! i)) rows cols" and
        e: "expand F rows cols goal (openList st ! i) offsets
              (st\<lparr>openList := pq_remove i (openList st),
                  closed := insert (node_pos (openList st ! i)) (closed st)\<rparr>) = Inr s2" and
        I2: "I s2"
        by blast
      have ng': "\<not> (node_x (openList st ! i) = fst goal \<and> node_y (openList st ! i) = snd goal)"
        using ng by (auto simp: node_pos_def)
      have rng': "\<not> \<not> in_range (node_x (openList st ! i)) (node_y (openList st ! i)) rows cols"
        using rng by simp
      have e': "expand F rows cols goal (openList st ! i) offsets
             ((st\<lparr>openList := pq_remove i (openList st)\<rparr>)
                \<lparr>closed := insert (node_x (openList st ! i), node_y (openList st ! i))
                    (closed (st\<lparr>openList := pq_remove i (openList st)\<rparr>))\<rparr>) = Inr s2"
        using e by (simp add: node_pos_def)
      have "\<exists>st' r. search_loop F tie rows cols goal s2 = Inr (st', r) \<and> Q st' r"
        by (rule "1.IH"[OF ne i_def refl refl ng' rng' e' I2 empty found step])
      then show ?thesis
        using search_loop_step[OF ne i_def ng rng] e by simp
    qed
  qed
qed

lemma search_loop_partial:
  assumes run: "search_loop F tie rows cols goal st = Inr (st', r)"
    and init: "I st"
    and empty: "\<And>s. I s \<Longrightarrow> openList s = [] \<Longrightarrow> Q s None"
    and found: "\<And>s i. I s \<Longrightarrow> i < length (openList s) \<Longrightarrow> node_pos (openList s ! i) = goal
                 \<Longrightarrow> Q (s\<lparr>openList := pq_remove i (openList s)\<rparr>) (Some (openList s ! i))"
    and step: "\<And>s i s2. I s \<Longrightarrow> i < length (openList s) \<Longrightarrow> node_pos (openList s ! i) \<noteq> goal
                 \<Longrightarrow> in_range (node_x (openList s ! i)) (node_y (openList s ! i)) rows cols
                 \<Longrightarrow> expand F rows cols goal (openList s ! i) offsets
                              (s\<lparr>openList := pq_remove i (openList s),
                                 closed := insert (node_pos (openList s ! i)) (closed s)\<rparr>) = Inr s2
                 \<Longrightarrow> I s2"
  shows "Q st' r"
  using run init empty found step
proof (induction F tie rows cols goal st rule: search_loop.induct)
  case (1 F tie rows cols goal st)
  note run = "1.prems"(1) and init = "1.prems"(2) and empty = "1.prems"(3)
    and found = "1.prems"(4) and step = "1.prems"(5)
  show ?case
  proof (cases "openList st = []")
    case True
    then show ?thesis using run init empty by (simp add: search_loop_empty)
  next
    case ne: False
    define i where "i = pq_top_index F tie (openList st)"
    have il: "i < length (openList st)" using ne by (simp add: i_def pq_top_index_less)
    show ?thesis
    proof (cases "node_pos (openList st ! i) = goal")
      case True
      then show ?thesis
        using search_loop_found[OF ne i_def True] found[OF init il True] run by simp
    next
      case ng: False
      show ?thesis
      proof (cases "in_range (node_x (openList st ! i)) (node_y (openList st ! i)) rows cols")
        case False
        then show ?thesis using search_loop_out[OF ne i_def ng] run by simp
      next
        case rng: True
        from run search_loop_step[OF ne i_def ng rng] obtain s2 where
          e: "expand F rows cols goal (openList st ! i) offsets
                (st\<lparr>openList := pq_remove i (openList st),
                    closed := insert (node_pos (openList st ! i)) (closed st)\<rparr>) = Inr s2" and
          r2: "search_loop F tie rows cols goal s2 = Inr (st', r)"
          by (auto split: sum.splits)
        have I2: "I s2" by (rule step[OF init il ng rng e])
        have ng': "\<not> (node_x (openList st ! i) = fst goal \<and> node_y (openList st ! i) = snd goal)"
          using ng by (auto simp: node_pos_def)
        have rng': "\<not> \<not> in_range (node_x (openList st ! i)) (node_y (openList st ! i)) rows cols"
          using rng by simp
        have e': "expand F rows cols goal (openList st ! i) offsets
               ((st\<lparr>openList := pq_remove i (openList st)\<rparr>)
                  \<lparr>closed := insert (node_x (openList st ! i), node_y (openList st ! i))
                      (closed (st\<lparr>openList := pq_remove i (openList st)\<rparr>))\<rparr>) = Inr s2"
          using e by (simp add: node_pos_def)
        show ?thesis
          by (rule "1.IH"[OF ne i_def refl refl ng' rng' e' r2 I2 empty found step])
      qed
    qed
  qed
qed

section \<open>Machine integers\<close>

lemma size_to_int_small: "int n < 2 ^ 31 \<Longrightarrow> size_to_int n = int n"
  by (simp add: size_to_int_def Let_def)

lemma size_to_int_le: "size_to_int n \<le> int n"
proof -
  have "int n mod 2 ^ 32 \<le> int n" by (rule zmod_le_nonneg_dividend) simp
  then show ?thesis by (simp add: size_to_int_def Let_def)
qed

lemma size_to_int_max: "size_to_int n \<le> INT_MAX"
proof -
  define m where "m = int n mod 2 ^ 32"
  have "m < 2 ^ 32" unfolding m_def by (rule pos_mod_bound) simp
  then show ?thesis
    unfolding size_to_int_def Let_def INT_MAX_def m_def[symmetric] by simp
qed

lemma grid_rows_le: "grid_rows g \<le> int (length g)"
  by (simp add: grid_rows_def size_to_int_le)

lemma grid_cols_le: "grid_cols g \<le> int (length (g ! 0))"
  by (simp add: grid_cols_def size_to_int_le)

lemma grid_rows_max: "grid_rows g \<le> INT_MAX"
  by (simp add: grid_rows_def size_to_int_max)

lemma grid_cols_max: "grid_cols g \<le> INT_MAX"
  by (simp add: grid_cols_def size_to_int_max)

lemma grid_rows_small: "int (length g) < 2 ^ 31 \<Longrightarrow> grid_rows g = int (length g)"
  by (simp add: grid_rows_def size_to_int_small)

lemma grid_cols_small: "int (length (g ! 0)) < 2 ^ 31 \<Longrightarrow> grid_cols g = int (length (g ! 0))"
  by (simp add: grid_cols_def size_to_int_small)

lemma grid_rows_Nil [simp]: "grid_rows [] = 0"
  by (simp add: grid_rows_def size_to_int_def)

lemma heuristic_ok_same: "heuristic_ok x y x y"
  by (simp add: heuristic_ok_def INT_MIN_def INT_MAX_def)

text \<open>A goal so near to the \<open>rows \<times> cols\<close> matrix that its coordinate differences with
  the two corners \<open>(0, 0)\<close> and \<open>(rows - 1, cols - 1)\<close>, hence with every cell, fit an
  \<^verbatim>\<open>int\<close>. A goal inside the matrix is one.\<close>

definition goal_near :: "int \<Rightarrow> int \<Rightarrow> Coord \<Rightarrow> bool" where
  "goal_near rows cols goal =
     (heuristic_ok 0 0 (fst goal) (snd goal) \<and>
      heuristic_ok (rows - 1) (cols - 1) (fst goal) (snd goal))"

lemma goal_near_ok:
  assumes "goal_near rows cols goal" "in_range x y rows cols"
  shows "heuristic_ok x y (fst goal) (snd goal)"
  using assms by (simp add: goal_near_def in_range_def heuristic_ok_def)

lemma in_range_goal_near:
  assumes "in_range (fst goal) (snd goal) rows cols" "rows \<le> INT_MAX" "cols \<le> INT_MAX"
  shows "goal_near rows cols goal"
  using assms by (simp add: goal_near_def in_range_def heuristic_ok_def INT_MIN_def INT_MAX_def)

lemma in_grid_goal_near:
  assumes "in_range (fst goal) (snd goal) (grid_rows g) (grid_cols g)"
  shows "goal_near (grid_rows g) (grid_cols g) goal"
  using assms grid_rows_max[of g] grid_cols_max[of g] by (rule in_range_goal_near)

section \<open>The counters\<close>

lemma int_add_ok: "INT_MIN \<le> a + b \<Longrightarrow> a + b \<le> INT_MAX \<Longrightarrow> int_add a b = Inr (a + b)"
  by (simp add: int_add_def)

lemma record_attempt_ok:
  assumes "0 \<le> l" "0 \<le> mazeAttempts s" "0 \<le> totalPathLength s" "0 \<le> successfulMazes s"
    "successfulMazes s \<le> mazeAttempts s"
    "mazeAttempts s + 1 \<le> INT_MAX" "totalPathLength s + l \<le> INT_MAX"
  shows "record_attempt l s =
           Inr \<lparr>totalPathLength = totalPathLength s + l,
                successfulMazes = successfulMazes s + (if 0 < l then 1 else 0),
                mazeAttempts = mazeAttempts s + 1\<rparr>"
proof -
  have a: "int_add (mazeAttempts s) 1 = Inr (mazeAttempts s + 1)"
    using assms by (intro int_add_ok) (simp_all add: INT_MIN_def)
  have t: "int_add (totalPathLength s) l = Inr (totalPathLength s + l)"
    using assms by (intro int_add_ok) (simp_all add: INT_MIN_def)
  have k: "int_add (successfulMazes s) 1 = Inr (successfulMazes s + 1)"
    using assms by (intro int_add_ok) (simp_all add: INT_MIN_def)
  show ?thesis by (simp add: record_attempt_def a t k)
qed

section \<open>Start equal to goal\<close>

lemma pq_top_index_single: "pq_top_index F tie [n] = 0"
  using pq_top_index_less [of "[n]" F tie] by simp

lemma aStarSearch_run_same:
  assumes "g \<noteq> []" "in_range (fst c) (snd c) (grid_rows g) (grid_cols g)"
  shows "aStarSearch_run F tie g c c =
           Inr (\<lparr>st_grid = g, openList = [], closed = {},
                 allNodes = [c \<mapsto> Node (fst c) (snd c) (d_of_int F 0) (d_of_int F 0)
                                   (heuristic F (fst c) (snd c) (fst c) (snd c)) None],
                 allocated = [Node (fst c) (snd c) (d_of_int F 0) (d_of_int F 0)
                                (heuristic F (fst c) (snd c) (fst c) (snd c)) None]\<rparr>,
                Some (Node (fst c) (snd c) (d_of_int F 0) (d_of_int F 0)
                        (heuristic F (fst c) (snd c) (fst c) (snd c)) None))"
proof -
  let ?n = "Node (fst c) (snd c) (d_of_int F 0) (d_of_int F 0)
              (heuristic F (fst c) (snd c) (fst c) (snd c)) None"
  let ?st = "\<lparr>st_grid = g, openList = pq_push ?n [], closed = {}, allNodes = [c \<mapsto> ?n],
             allocated = [?n]\<rparr>"
  have o: "openList ?st = [?n]" by (simp add: pq_push_def)
  have "search_loop F tie (grid_rows g) (grid_cols g) c ?st =
          Inr (?st\<lparr>openList := pq_remove 0 (openList ?st)\<rparr>, Some (openList ?st ! 0))"
    by (rule search_loop_found) (simp_all add: pq_push_def pq_top_index_single node_pos_def)
  moreover have "\<not> (grid_rows g < 0 \<or> grid_cols g < 0)"
    using assms(2) by (simp add: in_range_def)
  ultimately show ?thesis
    using assms by (simp add: aStarSearch_run_def Let_def pq_push_def pq_remove_def
                      heuristic_ok_same)
qed

lemma aStarSearch_same:
  assumes "g \<noteq> []" "in_range (fst c) (snd c) (grid_rows g) (grid_cols g)"
  shows "aStarSearch F tie g c c = Inr [c]"
  by (simp add: aStarSearch_def aStarSearch_run_same[OF assms] reconstructPath_def)

lemma isValid_TrueD:
  assumes "isValid x y rows cols g = Inr True"
  shows "in_range x y rows cols"
  using assms by (auto simp: isValid_def in_range_def split: if_splits)

text \<open>
  C6. For every grid and every valid, free coordinate \<open>c\<close>, the search from \<open>c\<close> to \<open>c\<close>
  returns the path \<open>[c]\<close>, and it stops at the first extraction from the open list: the
  node found is the start node, the open list is empty afterwards, no cell has been
  closed and no node but the start node has been recorded.
\<close>

theorem start_equals_goal:
  assumes "isValid (fst c) (snd c) (grid_rows g) (grid_cols g) g = Inr True"
  shows "aStarSearch F tie g c c = Inr [c] \<and>
         (\<exists>st n. aStarSearch_run F tie g c c = Inr (st, Some n) \<and>
                 node_pos n = c \<and> openList st = [] \<and> closed st = {} \<and>
                 dom (allNodes st) = {c})"
proof -
  have r: "in_range (fst c) (snd c) (grid_rows g) (grid_cols g)"
    using assms by (rule isValid_TrueD)
  have g: "g \<noteq> []" using assms by (auto simp: isValid_def split: if_splits)
  show ?thesis
    by (simp add: aStarSearch_same[OF g r] aStarSearch_run_same[OF g r] node_pos_def)
qed

theorem start_equals_goal_witness:
  "aStarSearch exact_ops tie_first [[0, 1], [0, 0]] (1, 1) (1, 1) = Inr [(1, 1)]"
  using start_equals_goal [of "(1, 1)" "[[0, 1], [0, 0]]" exact_ops tie_first]
  by (simp add: isValid_def grid_rows_def grid_cols_def size_to_int_def)

text \<open>
  C10. The search never tests that the start or the goal cell is free: whenever start
  and goal are the same coordinate inside the grid, the search returns that single
  coordinate, whatever the cell holds (blocked included). \<^verbatim>\<open>isValid\<close> is applied to
  neighbours only.
\<close>

theorem blocked_start_unchecked:
  assumes "g \<noteq> []" "in_range (fst c) (snd c) (grid_rows g) (grid_cols g)"
  shows "aStarSearch F tie g c c = Inr [c]"
  using assms by (rule aStarSearch_same)

theorem blocked_start_unchecked_witness:
  "isValid 0 1 2 2 [[0, 1], [0, 0]] = Inr False \<and>
   aStarSearch exact_ops tie_first [[0, 1], [0, 0]] (0, 1) (0, 1) = Inr [(0, 1)]"
  using blocked_start_unchecked [of "[[0, 1], [0, 0]]" "(0, 1)" exact_ops tie_first]
  by (simp add: isValid_def in_range_def grid_rows_def grid_cols_def size_to_int_def)

section \<open>The grid is only read\<close>

text \<open>
  The grid belongs to the state a search runs on (it is passed by reference); in the
  state the search stops in, and in the state it returns in, it is the grid the search
  was given.
\<close>

lemma grid_unchanged:
  assumes "aStarSearch_run F tie g start goal = Inr (st, r)"
  shows "st_grid st = g"
proof -
  let ?n = "Node (fst start) (snd start) (d_of_int F 0) (d_of_int F 0)
              (heuristic F (fst start) (snd start) (fst goal) (snd goal)) None"
  let ?st = "\<lparr>st_grid = g, openList = pq_push ?n [], closed = {}, allNodes = [start \<mapsto> ?n],
             allocated = [?n]\<rparr>"
  from assms have run: "search_loop F tie (grid_rows g) (grid_cols g) goal ?st
                          = Inr (st, r)"
    by (simp add: aStarSearch_run_def Let_def split: if_splits)
  show ?thesis
  proof (rule search_loop_partial[OF run, where I = "\<lambda>s. st_grid s = g"
                                           and Q = "\<lambda>s r. st_grid s = g"])
    fix s i s2
    assume "st_grid s = g"
      and "expand F (grid_rows g) (grid_cols g) goal (openList s ! i) offsets
             (s\<lparr>openList := pq_remove i (openList s),
                closed := insert (node_pos (openList s ! i)) (closed s)\<rparr>) = Inr s2"
    then show "st_grid s2 = g" using expand_frame by fastforce
  qed simp_all
qed

lemma grid_unchanged_final:
  assumes "aStarSearch_final F tie g start goal = Inr st"
  shows "st_grid st = g"
  using assms grid_unchanged[of F tie g start goal]
  by (auto simp: aStarSearch_final_def cleanup_def split: sum.splits)

section \<open>The shape of a returned path\<close>

text \<open>Running the model on concrete inputs: the definitions to unfold.\<close>

lemmas eval_defs = aStarSearch_def aStarSearch_run_def search_loop.simps Let_def
  pq_push_def pq_remove_def pq_top_index_def top_candidates_def in_range_def
  isValid_def visit_neighbor_def offsets_def dx_def dy_def reconstructPath_def
  heuristic_def exact_ops_def tie_first_def grid_rows_def grid_cols_def size_to_int_def
  heuristic_ok_def INT_MAX_def INT_MIN_def

lemma set_offsets:
  "set offsets = {(-1, 0), (1, 0), (0, -1), (0, 1), (-1, -1), (-1, 1), (1, -1), (1, 1)}"
  by (auto simp: offsets_def dx_def dy_def)

lemma visit_neighbor_new:
  assumes "visit_neighbor F rows cols goal current off st = Inr st'"
  shows "\<exists>new. openList st' = openList st @ new \<and>
           (\<forall>n\<in>set new. parent n = Some current \<and>
               (node_x n - node_x current, node_y n - node_y current) = off \<and>
               isValid (node_x n) (node_y n) rows cols (st_grid st) = Inr True)"
  using assms
  by (cases off)
     (auto simp: visit_neighbor_def Let_def pq_push_def
           split: sum.splits if_splits option.splits)

lemma expand_new:
  assumes "expand F rows cols goal current offs st = Inr st'"
  shows "\<exists>new. openList st' = openList st @ new \<and>
           (\<forall>n\<in>set new. parent n = Some current \<and>
               (node_x n - node_x current, node_y n - node_y current) \<in> set offs \<and>
               isValid (node_x n) (node_y n) rows cols (st_grid st) = Inr True)"
  using assms
proof (induction offs arbitrary: st)
  case Nil
  then show ?case by simp
next
  case (Cons off offs)
  from Cons.prems obtain st1 where
    v: "visit_neighbor F rows cols goal current off st = Inr st1" and
    e: "expand F rows cols goal current offs st1 = Inr st'"
    by (auto split: sum.splits)
  have g: "st_grid st1 = st_grid st" using visit_neighbor_frame[OF v] by simp
  from visit_neighbor_new[OF v] obtain new1 where
    n1: "openList st1 = openList st @ new1"
        "\<forall>n\<in>set new1. parent n = Some current \<and>
               (node_x n - node_x current, node_y n - node_y current) = off \<and>
               isValid (node_x n) (node_y n) rows cols (st_grid st) = Inr True"
    by blast
  from Cons.IH[OF e] obtain new2 where
    n2: "openList st' = openList st1 @ new2"
        "\<forall>n\<in>set new2. parent n = Some current \<and>
               (node_x n - node_x current, node_y n - node_y current) \<in> set offs \<and>
               isValid (node_x n) (node_y n) rows cols (st_grid st1) = Inr True"
    by blast
  have "openList st' = openList st @ (new1 @ new2)" using n1(1) n2(1) by simp
  moreover have "\<forall>n\<in>set (new1 @ new2). parent n = Some current \<and>
               (node_x n - node_x current, node_y n - node_y current) \<in> set (off # offs) \<and>
               isValid (node_x n) (node_y n) rows cols (st_grid st) = Inr True"
    using n1(2) n2(2) g by auto
  ultimately show ?case by blast
qed

lemma set_pq_remove: "set (pq_remove i q) \<subseteq> set q"
  by (auto simp: pq_remove_def dest: in_set_takeD in_set_dropD)

fun chain_ok :: "Coord \<Rightarrow> 'd Node \<Rightarrow> bool" where
  "chain_ok start (Node x y f g h None) = ((x, y) = start)"
| "chain_ok start (Node x y f g h (Some p)) =
     ((x - node_x p, y - node_y p) \<in> set offsets \<and> chain_ok start p)"

lemma follow_parents_Some:
  "follow_parents (Some n) = node_pos n # follow_parents (parent n)"
  by (cases n) (simp add: node_pos_def)

lemma chain_ok_follow:
  "chain_ok start n \<Longrightarrow>
     last (follow_parents (Some n)) = start \<and>
     successively (\<lambda>c p. (fst c - fst p, snd c - snd p) \<in> set offsets) (follow_parents (Some n))"
proof (induction start n rule: chain_ok.induct)
  case (1 start x y f g h)
  then show ?case by simp
next
  case (2 start x y f g h p)
  then have ok: "chain_ok start p" and st: "(x - node_x p, y - node_y p) \<in> set offsets"
    by simp_all
  from "2.IH"[OF ok] have
    l: "last (follow_parents (Some p)) = start" and
    s: "successively (\<lambda>c p. (fst c - fst p, snd c - snd p) \<in> set offsets)
          (follow_parents (Some p))"
    by simp_all
  have fp: "follow_parents (Some p) = node_pos p # follow_parents (parent p)"
    by (rule follow_parents_Some)
  show ?case using l s st by (simp add: fp node_pos_def)
qed

lemma successively_nth:
  "successively P xs \<Longrightarrow> Suc i < length xs \<Longrightarrow> P (xs ! i) (xs ! Suc i)"
proof (induction P xs arbitrary: i rule: successively.induct)
  case (3 P x y xs)
  then show ?case by (cases i) auto
qed simp_all

lemma search_result_chain:
  assumes "aStarSearch_run F tie g start goal = Inr (st, Some n)"
  shows "chain_ok start n \<and> node_pos n = goal"
proof -
  let ?n = "Node (fst start) (snd start) (d_of_int F 0) (d_of_int F 0)
              (heuristic F (fst start) (snd start) (fst goal) (snd goal)) None"
  let ?st = "\<lparr>st_grid = g, openList = pq_push ?n [], closed = {}, allNodes = [start \<mapsto> ?n],
             allocated = [?n]\<rparr>"
  let ?I = "\<lambda>s. \<forall>m\<in>set (openList s). chain_ok start m"
  let ?Q = "\<lambda>s r. case r of None \<Rightarrow> True | Some m \<Rightarrow> chain_ok start m \<and> node_pos m = goal"
  from assms have run: "search_loop F tie (grid_rows g) (grid_cols g) goal ?st
                          = Inr (st, Some n)"
    by (simp add: aStarSearch_run_def Let_def split: if_splits)
  have "?Q st (Some n)"
  proof (rule search_loop_partial[OF run, where I = ?I and Q = ?Q])
    show "?I ?st" by (simp add: pq_push_def)
  next
    fix s i s2
    assume I: "?I s" and il: "i < length (openList s)"
      and e: "expand F (grid_rows g) (grid_cols g) goal (openList s ! i) offsets
             (s\<lparr>openList := pq_remove i (openList s),
                closed := insert (node_pos (openList s ! i)) (closed s)\<rparr>) = Inr s2"
    have cur: "chain_ok start (openList s ! i)" using I il by simp
    from expand_new[OF e] obtain new where
      o: "openList s2 = pq_remove i (openList s) @ new" and
      n: "\<forall>m\<in>set new. parent m = Some (openList s ! i) \<and>
            (node_x m - node_x (openList s ! i), node_y m - node_y (openList s ! i)) \<in> set offsets"
      by auto
    have "chain_ok start m" if "m \<in> set new" for m
      using n that cur by (cases m) auto
    then show "?I s2" using o I set_pq_remove[of i "openList s"] by auto
  qed auto
  then show ?thesis by simp
qed

text \<open>
  C2. For every grid, start and goal: a non-empty path returned by the search begins
  with \<open>start\<close>, ends with \<open>goal\<close>, and each coordinate differs from the one before it
  by one of the 8 unit offsets (4 orthogonal, 4 diagonal).
\<close>

theorem path_shape:
  assumes "aStarSearch F tie g start goal = Inr p" "p \<noteq> []"
  shows "hd p = start \<and> last p = goal \<and>
         (\<forall>i. Suc i < length p \<longrightarrow>
            (fst (p ! Suc i) - fst (p ! i), snd (p ! Suc i) - snd (p ! i))
              \<in> {(-1, 0), (1, 0), (0, -1), (0, 1), (-1, -1), (-1, 1), (1, -1), (1, 1)})"
proof -
  from assms obtain st n where
    run: "aStarSearch_run F tie g start goal = Inr (st, Some n)" and
    p: "p = reconstructPath (Some n)"
    by (auto simp: aStarSearch_def split: sum.splits prod.splits if_splits)
  from search_result_chain[OF run] have ok: "chain_ok start n" and pos: "node_pos n = goal"
    by simp_all
  let ?P = "\<lambda>c p. (fst c - fst p, snd c - snd p) \<in> set offsets"
  from chain_ok_follow[OF ok] have
    l: "last (follow_parents (Some n)) = start" and
    s: "successively ?P (follow_parents (Some n))"
    by simp_all
  have ne: "follow_parents (Some n) \<noteq> []" by (simp add: follow_parents_Some)
  have h: "hd p = start" using l ne by (simp add: p reconstructPath_def hd_rev)
  have "hd (follow_parents (Some n)) = goal" using pos by (simp add: follow_parents_Some)
  then have la: "last p = goal" using ne by (simp add: p reconstructPath_def last_rev)
  have "successively (\<lambda>a b. ?P b a) p"
    using s by (simp add: p reconstructPath_def)
  then have "\<forall>i. Suc i < length p \<longrightarrow> ?P (p ! Suc i) (p ! i)"
    using successively_nth[of "\<lambda>a b. ?P b a" p] by blast
  then show ?thesis using h la unfolding set_offsets by blast
qed


theorem path_shape_witness:
  "aStarSearch exact_ops tie_first [[0, 1], [1, 0]] (0, 0) (1, 1) = Inr [(0, 0), (1, 1)] \<and>
   hd [(0, 0), (1, 1 :: int)] = (0 :: int, 0) \<and> last [(0 :: int, 0), (1, 1 :: int)] = (1, 1)"
proof -
  have e: "aStarSearch exact_ops tie_first [[0, 1], [1, 0]] (0, 0) (1, 1) = Inr [(0, 0), (1, 1)]"
    by (simp add: eval_defs)
  from path_shape [OF e] show ?thesis using e by simp
qed


section \<open>Expanding a node\<close>

text \<open>The cell an offset leads to, the node line 117 builds for it, and the test that
  decides whether it is pushed.\<close>

definition target :: "'d Node \<Rightarrow> int \<times> int \<Rightarrow> Coord" where
  "target current off = (node_x current + fst off, node_y current + snd off)"

definition neighbor_node :: "'d double_ops \<Rightarrow> Coord \<Rightarrow> 'd Node \<Rightarrow> int \<times> int \<Rightarrow> 'd Node" where
  "neighbor_node F goal current off =
     (let newX = node_x current + fst off;
          newY = node_y current + snd off;
          gNew = d_add F (node_g current)
                   (heuristic F (node_x current) (node_y current) newX newY);
          hNew = heuristic F newX newY (fst goal) (snd goal)
      in Node newX newY (d_add F gNew hNew) gNew hNew (Some current))"

definition pushes ::
  "'d double_ops \<Rightarrow> int \<Rightarrow> int \<Rightarrow> Coord \<Rightarrow> 'd Node \<Rightarrow> int \<times> int \<Rightarrow> 'd search_state \<Rightarrow> bool" where
  "pushes F rows cols goal current off st =
     (isValid (fst (target current off)) (snd (target current off)) rows cols (st_grid st)
        = Inr True \<and>
      target current off \<notin> closed st \<and>
      (case allNodes st (target current off) of
         None \<Rightarrow> True
       | Some old \<Rightarrow> d_less F (node_f (neighbor_node F goal current off)) (node_f old)))"

lemma node_pos_neighbor_node [simp]:
  "node_pos (neighbor_node F goal current off) = target current off"
  by (simp add: neighbor_node_def node_pos_def target_def Let_def)

lemma visit_neighbor_eq:
  assumes "visit_neighbor F rows cols goal current off st = Inr st'"
  shows "st' = (if pushes F rows cols goal current off st
                then st\<lparr>openList := openList st @ [neighbor_node F goal current off],
                        allNodes := (allNodes st)(target current off \<mapsto>
                                       neighbor_node F goal current off),
                        allocated := allocated st @ [neighbor_node F goal current off]\<rparr>
                else st)"
  using assms
  by (auto simp: visit_neighbor_def pushes_def target_def neighbor_node_def Let_def pq_push_def
           split: sum.splits if_splits option.splits)

lemma target_inj: "target current off = target current off' \<Longrightarrow> off = off'"
  by (cases off; cases off') (simp add: target_def)

lemma expand_cells:
  assumes "expand F rows cols goal current offs st = Inr st'" "distinct offs"
  shows "(\<forall>off\<in>set offs.
            allNodes st' (target current off) =
              (if pushes F rows cols goal current off st
               then Some (neighbor_node F goal current off)
               else allNodes st (target current off)) \<and>
            filter (\<lambda>n. node_pos n = target current off) (openList st') =
              filter (\<lambda>n. node_pos n = target current off) (openList st) @
              (if pushes F rows cols goal current off st
               then [neighbor_node F goal current off] else [])) \<and>
         (\<forall>c. c \<notin> target current ` set offs \<longrightarrow>
            allNodes st' c = allNodes st c \<and>
            filter (\<lambda>n. node_pos n = c) (openList st') =
              filter (\<lambda>n. node_pos n = c) (openList st)) \<and>
         closed st' = closed st \<and> st_grid st' = st_grid st"
  using assms
proof (induction offs arbitrary: st)
  case Nil
  then show ?case by simp
next
  case (Cons off offs)
  from Cons.prems obtain st1 where
    v: "visit_neighbor F rows cols goal current off st = Inr st1" and
    e: "expand F rows cols goal current offs st1 = Inr st'"
    by (auto split: sum.splits)
  have d: "distinct offs" and notin: "off \<notin> set offs" using Cons.prems(2) by simp_all
  note IH = Cons.IH[OF e d]
  have IH1: "allNodes st' (target current o') =
              (if pushes F rows cols goal current o' st1
               then Some (neighbor_node F goal current o')
               else allNodes st1 (target current o')) \<and>
            filter (\<lambda>n. node_pos n = target current o') (openList st') =
              filter (\<lambda>n. node_pos n = target current o') (openList st1) @
              (if pushes F rows cols goal current o' st1
               then [neighbor_node F goal current o'] else [])"
    if "o' \<in> set offs" for o'
    using IH that by blast
  have IH2: "allNodes st' c = allNodes st1 c \<and>
            filter (\<lambda>n. node_pos n = c) (openList st') =
              filter (\<lambda>n. node_pos n = c) (openList st1)"
    if "c \<notin> target current ` set offs" for c
    using IH that by blast
  note st1 = visit_neighbor_eq[OF v]
  have fr: "closed st1 = closed st" "st_grid st1 = st_grid st"
    using st1 by (auto split: if_splits)
  have other: "allNodes st1 c = allNodes st c \<and>
               filter (\<lambda>n. node_pos n = c) (openList st1) = filter (\<lambda>n. node_pos n = c) (openList st)"
    if "c \<noteq> target current off" for c
    using st1 that by (auto split: if_splits)
  have here: "allNodes st1 (target current off) =
              (if pushes F rows cols goal current off st
               then Some (neighbor_node F goal current off)
               else allNodes st (target current off)) \<and>
            filter (\<lambda>n. node_pos n = target current off) (openList st1) =
              filter (\<lambda>n. node_pos n = target current off) (openList st) @
              (if pushes F rows cols goal current off st
               then [neighbor_node F goal current off] else [])"
    using st1 by (auto split: if_splits)
  have tnot: "target current off \<notin> target current ` set offs"
    using notin target_inj by fastforce
  have same_push: "pushes F rows cols goal current off' st1 = pushes F rows cols goal current off' st"
    if "off' \<in> set offs" for off'
  proof -
    have "target current off' \<noteq> target current off"
      using that notin target_inj by fastforce
    then show ?thesis using other fr by (simp add: pushes_def)
  qed
  have A: "allNodes st' (target current off') =
              (if pushes F rows cols goal current off' st
               then Some (neighbor_node F goal current off')
               else allNodes st (target current off')) \<and>
            filter (\<lambda>n. node_pos n = target current off') (openList st') =
              filter (\<lambda>n. node_pos n = target current off') (openList st) @
              (if pushes F rows cols goal current off' st
               then [neighbor_node F goal current off'] else [])"
    if "off' \<in> set (off # offs)" for off'
  proof (cases "off' = off")
    case True
    then show ?thesis using IH2[OF tnot] here by simp
  next
    case False
    then have m: "off' \<in> set offs" using that by simp
    have ne: "target current off' \<noteq> target current off"
      using False target_inj by blast
    show ?thesis using IH1[OF m] same_push[OF m] other[OF ne] by simp
  qed
  have B: "allNodes st' c = allNodes st c \<and>
            filter (\<lambda>n. node_pos n = c) (openList st') =
              filter (\<lambda>n. node_pos n = c) (openList st)"
    if "c \<notin> target current ` set (off # offs)" for c
  proof -
    have "c \<noteq> target current off" "c \<notin> target current ` set offs" using that by auto
    then show ?thesis using IH2[of c] other[of c] by simp
  qed
  have C: "closed st' = closed st \<and> st_grid st' = st_grid st" using IH fr by simp
  show ?case using A B C by blast
qed

lemma distinct_offsets: "distinct offsets"
  by (simp add: offsets_def dx_def dy_def)

text \<open>
  C5. When the node taken from the open list is expanded (all 8 offsets), then for each
  offset, with \<open>(newX, newY)\<close> the neighbour cell: if the cell is out of bounds, blocked
  or already closed, nothing is recorded or queued for it; otherwise the recorded node
  of the cell is created or replaced by a node with predecessor \<open>current\<close>, and that
  node is appended to the open list, exactly when no node is recorded for the cell yet
  or the recorded node's \<open>f\<close> exceeds \<open>gNew + hNew\<close>. Here \<open>gNew\<close> is \<open>current\<close>'s \<open>g\<close> plus
  the Euclidean distance between the two cells and \<open>hNew\<close> the Euclidean distance from
  the neighbour to the goal.
\<close>

theorem expansion_of_current:
  assumes "expand F rows cols goal current offsets st = Inr st'" "off \<in> set offsets"
  shows "let newX = node_x current + fst off;
             newY = node_y current + snd off;
             gNew = d_add F (node_g current)
                      (heuristic F (node_x current) (node_y current) newX newY);
             hNew = heuristic F newX newY (fst goal) (snd goal);
             neighbor = Node newX newY (d_add F gNew hNew) gNew hNew (Some current);
             queued = (\<lambda>s. filter (\<lambda>n. node_pos n = (newX, newY)) (openList s))
         in if isValid newX newY rows cols (st_grid st) \<noteq> Inr True \<or> (newX, newY) \<in> closed st
            then allNodes st' (newX, newY) = allNodes st (newX, newY) \<and> queued st' = queued st
            else if allNodes st (newX, newY) = None \<or>
                    (\<exists>old. allNodes st (newX, newY) = Some old \<and>
                           d_less F (d_add F gNew hNew) (node_f old))
            then allNodes st' (newX, newY) = Some neighbor \<and> queued st' = queued st @ [neighbor]
            else allNodes st' (newX, newY) = allNodes st (newX, newY) \<and> queued st' = queued st"
proof -
  from expand_cells[OF assms(1) distinct_offsets] assms(2) have
    "allNodes st' (target current off) =
              (if pushes F rows cols goal current off st
               then Some (neighbor_node F goal current off)
               else allNodes st (target current off)) \<and>
            filter (\<lambda>n. node_pos n = target current off) (openList st') =
              filter (\<lambda>n. node_pos n = target current off) (openList st) @
              (if pushes F rows cols goal current off st
               then [neighbor_node F goal current off] else [])"
    by blast
  then show ?thesis
    by (auto simp: Let_def pushes_def target_def neighbor_node_def split: option.splits)
qed

theorem expansion_of_current_witness:
  "\<exists>st'. expand exact_ops 2 2 (1, 1) (Node 0 0 0 0 (sqrt 2) None) offsets
           \<lparr>st_grid = [[0, 1], [1, 0]], openList = [], closed = {(0, 0)},
            allNodes = [(0, 0) \<mapsto> Node 0 0 0 0 (sqrt 2) None,
                        (1, 1) \<mapsto> Node 1 1 5 5 0 None],
            allocated = [Node 0 0 0 0 (sqrt 2) None, Node 1 1 5 5 0 None]\<rparr> = Inr st' \<and>
         allNodes st' (1, 1) = Some (Node 1 1 (sqrt 2) (sqrt 2) 0 (Some (Node 0 0 0 0 (sqrt 2) None))) \<and>
         filter (\<lambda>n. node_pos n = (1, 1)) (openList st') =
           [Node 1 1 (sqrt 2) (sqrt 2) 0 (Some (Node 0 0 0 0 (sqrt 2) None))]"
proof -
  let ?n0 = "Node 0 0 0 0 (sqrt 2) None :: real Node"
  let ?st = "\<lparr>st_grid = [[0, 1], [1, 0]], openList = [], closed = {(0, 0)},
            allNodes = [(0, 0) \<mapsto> ?n0, (1, 1) \<mapsto> Node 1 1 5 5 0 None],
            allocated = [?n0, Node 1 1 5 5 0 None]\<rparr>"
  have lt: "sqrt 2 < (5 :: real)"
    using real_sqrt_less_iff [of 2 25] by simp
  obtain st' where e: "expand exact_ops 2 2 (1, 1) ?n0 offsets ?st = Inr st'"
    by (simp add: eval_defs lt)
  have m: "(1, 1) \<in> set offsets" by (simp add: offsets_def dx_def dy_def)
  from expansion_of_current [OF e m] lt
  have "allNodes st' (1, 1) = Some (Node 1 1 (sqrt 2) (sqrt 2) 0 (Some ?n0)) \<and>
         filter (\<lambda>n. node_pos n = (1, 1)) (openList st') =
           [Node 1 1 (sqrt 2) (sqrt 2) 0 (Some ?n0)]"
    by (simp add: Let_def isValid_def heuristic_def exact_ops_def)
  with e show ?thesis by blast
qed



section \<open>Start or goal on a blocked cell or outside the grid\<close>

text \<open>A grid whose rows all have the length of the first row, as \<^verbatim>\<open>solveMaze\<close>
  builds it. On such a grid \<^verbatim>\<open>isValid\<close> never indexes out of range.\<close>

definition rectangular :: "Grid \<Rightarrow> bool" where
  "rectangular g = (\<forall>row\<in>set g. length row = length (g ! 0))"

lemma isValid_rectangular:
  assumes "rectangular g"
  shows "\<exists>b. isValid x y (grid_rows g) (grid_cols g) g = Inr b"
proof (cases "x \<ge> 0 \<and> x < grid_rows g \<and> y \<ge> 0 \<and> y < grid_cols g")
  case True
  have "x < int (length g)" using True grid_rows_le[of g] by simp
  then have x: "nat x < length g" using True by (simp add: nat_less_iff)
  then have "g ! nat x \<in> set g" by simp
  then have l: "length (g ! nat x) = length (g ! 0)" using assms by (simp add: rectangular_def)
  have "y < int (length (g ! 0))" using True grid_cols_le[of g] by simp
  then have "nat y < length (g ! nat x)" using True l by (simp add: nat_less_iff)
  then show ?thesis using True x by (simp add: isValid_def)
next
  case False
  then show ?thesis by (auto simp: isValid_def)
qed

lemma visit_neighbor_total:
  assumes v: "\<exists>b. isValid (node_x current + fst off) (node_y current + snd off) rows cols
                  (st_grid st) = Inr b"
    and near: "goal_near rows cols goal"
  shows "\<exists>st'. visit_neighbor F rows cols goal current off st = Inr st'"
proof -
  from v obtain b where
    b: "isValid (node_x current + fst off) (node_y current + snd off) rows cols (st_grid st)
          = Inr b"
    by blast
  show ?thesis
  proof (cases b)
    case True
    with b have "in_range (node_x current + fst off) (node_y current + snd off) rows cols"
      by (intro isValid_TrueD) simp
    then have "heuristic_ok (node_x current + fst off) (node_y current + snd off)
                 (fst goal) (snd goal)"
      by (rule goal_near_ok[OF near])
    then show ?thesis using b
      by (auto simp: visit_neighbor_def Let_def split: option.splits)
  next
    case False
    then show ?thesis using b by (simp add: visit_neighbor_def Let_def)
  qed
qed

lemma expand_total:
  assumes "rectangular (st_grid st)"
    "rows = grid_rows (st_grid st)" "cols = grid_cols (st_grid st)"
    "goal_near rows cols goal"
  shows "\<exists>st'. expand F rows cols goal current offs st = Inr st'"
  using assms
proof (induction offs arbitrary: st)
  case Nil
  then show ?case by simp
next
  case (Cons off offs)
  from visit_neighbor_total[of current off rows cols st goal F]
    isValid_rectangular[OF Cons.prems(1)] Cons.prems(2,3,4)
  obtain st1 where v: "visit_neighbor F rows cols goal current off st = Inr st1"
    by blast
  have g: "st_grid st1 = st_grid st" using visit_neighbor_frame[OF v] by simp
  from Cons.IH[of st1] Cons.prems g obtain st' where
    "expand F rows cols goal current offs st1 = Inr st'"
    by auto
  then show ?case using v by simp
qed

text \<open>A sequence of \<^verbatim>\<open>rand()\<close> results whose first draw hits the goal cell of a
  \<open>1 \<times> 5\<close> maze.\<close>

definition rand_hits_goal :: "nat \<Rightarrow> nat" where
  "rand_hits_goal k = (if k = 1 then 4 else 0)"

text \<open>
  C7, as stated, fails: \<^verbatim>\<open>solveMaze(1, 5)\<close> draws one obstacle; when it lands on the
  goal cell \<open>(0, 4)\<close>, no error is reported. The search runs, returns the empty path,
  and the maze is counted as an attempt without success.
\<close>

theorem blocked_goal_counterexample:
  "random_obstacles rand_hits_goal 1 5 0 (Suc 0) [[0, 0, 0, 0, 0]] = [[0, 0, 0, 0, 1]] \<and>
   isValid 0 4 1 5 [[0, 0, 0, 0, 1]] = Inr False \<and>
   solveMaze exact_ops tie_first rand_hits_goal 1 5 (0, no_stats) =
     Inr (2, \<lparr>totalPathLength = 0, successfulMazes = 0, mazeAttempts = 1\<rparr>)"
proof -
  have n: "nat (1 * 5 div 5 :: int) = Suc 0" by simp
  have r: "replicate (nat 1) (replicate (nat 5) (0 :: int)) = [[0, 0, 0, 0, 0]]"
    by (simp add: numeral_eq_Suc)
  have g: "random_obstacles rand_hits_goal 1 5 0 (Suc 0) [[0, 0, 0, 0, 0]] = [[0, 0, 0, 0, 1]]"
    by (simp add: rand_hits_goal_def)
  have s: "aStarSearch exact_ops tie_first [[0, 0, 0, 0, 1]] (0, 0) (1 - 1, 5 - 1) = Inr []"
    by (simp add: eval_defs)
  have a: "record_attempt (size_to_int (length ([] :: Coord list))) no_stats =
             Inr \<lparr>totalPathLength = 0, successfulMazes = 0, mazeAttempts = 1\<rparr>"
    by (simp add: record_attempt_def int_add_def size_to_int_def INT_MAX_def INT_MIN_def
          no_stats_def)
  have c: "\<not> (1 * 5 > INT_MAX)" by (simp add: INT_MAX_def)
  have v: "isValid 0 4 1 5 [[0, 0, 0, 0, 1]] = Inr False"
    by (simp add: isValid_def)
  have "solveMaze exact_ops tie_first rand_hits_goal 1 5 (0, no_stats) =
          Inr (2, \<lparr>totalPathLength = 0, successfulMazes = 0, mazeAttempts = 1\<rparr>)"
    unfolding solveMaze_def Let_def fst_conv snd_conv n r g s
    using a c by simp
  with g v show ?thesis by simp
qed


text \<open>
  C7, amended. Neither \<^verbatim>\<open>solveMaze\<close> nor \<^verbatim>\<open>aStarSearch\<close> checks the start or the
  goal. When the goal is outside the grid or on a blocked cell and is not the start, the
  search (on a rectangular grid, from a start inside it, the goal near enough for the
  coordinate differences to fit an \<^verbatim>\<open>int\<close>) reports no error: it runs until the open
  list is empty and returns the empty path.
\<close>

theorem invalid_goal_empty_path:
  fixes F :: "'d double_ops"
  assumes rect: "rectangular g"
    and start: "in_range (fst start) (snd start) (grid_rows g) (grid_cols g)"
    and ne: "goal \<noteq> start"
    and inv: "isValid (fst goal) (snd goal) (grid_rows g) (grid_cols g) g = Inr False"
    and near: "goal_near (grid_rows g) (grid_cols g) goal"
  shows "aStarSearch F tie g start goal = Inr []"
proof -
  let ?rows = "grid_rows g" and ?cols = "grid_cols g"
  let ?n = "Node (fst start) (snd start) (d_of_int F 0) (d_of_int F 0)
              (heuristic F (fst start) (snd start) (fst goal) (snd goal)) None"
  let ?st = "\<lparr>st_grid = g, openList = pq_push ?n [], closed = {}, allNodes = [start \<mapsto> ?n],
             allocated = [?n]\<rparr>"
  let ?I = "\<lambda>s. st_grid s = g \<and>
               (\<forall>m\<in>set (openList s). node_pos m \<noteq> goal \<and> in_range (node_x m) (node_y m) ?rows ?cols)"
  let ?Q = "\<lambda>(s :: 'd search_state) (r :: 'd Node option). r = None"
  have gne: "g \<noteq> []" using start by (auto simp: in_range_def)
  have "\<exists>st' r. search_loop F tie ?rows ?cols goal ?st = Inr (st', r) \<and> ?Q st' r"
  proof (rule search_loop_total[where I = ?I and Q = ?Q])
    show "?I ?st" using start ne by (auto simp: pq_push_def node_pos_def)
  next
    fix s :: "'d search_state" and i
    assume I: "?I s" and il: "i < length (openList s)"
      and "node_pos (openList s ! i) = goal"
    then show "?Q (s\<lparr>openList := pq_remove i (openList s)\<rparr>) (Some (openList s ! i))"
      using nth_mem by blast
  next
    fix s :: "'d search_state" and i
    assume I: "?I s" and il: "i < length (openList s)"
    let ?cur = "openList s ! i"
    let ?s1 = "s\<lparr>openList := pq_remove i (openList s),
                 closed := insert (node_pos ?cur) (closed s)\<rparr>"
    have rng: "in_range (node_x ?cur) (node_y ?cur) ?rows ?cols"
      using I il by simp
    have g1: "st_grid ?s1 = g" using I by simp
    from expand_total[of ?s1 ?rows ?cols goal F ?cur offsets] rect g1 near
    obtain s2 where e: "expand F ?rows ?cols goal ?cur offsets ?s1 = Inr s2"
      by auto
    from expand_new[OF e] obtain new where
      o: "openList s2 = pq_remove i (openList s) @ new" and
      n: "\<forall>m\<in>set new. isValid (node_x m) (node_y m) ?rows ?cols g = Inr True"
      using g1 by auto
    have "node_pos m \<noteq> goal \<and> in_range (node_x m) (node_y m) ?rows ?cols"
      if "m \<in> set new" for m
    proof -
      have v: "isValid (node_x m) (node_y m) ?rows ?cols g = Inr True" using n that by simp
      then have "in_range (node_x m) (node_y m) ?rows ?cols" by (rule isValid_TrueD)
      moreover have "node_pos m \<noteq> goal" using v inv by (auto simp: node_pos_def)
      ultimately show ?thesis by simp
    qed
    moreover have "st_grid s2 = g" using expand_frame[OF e] g1 by simp
    ultimately have "?I s2" using o I set_pq_remove[of i "openList s"] by auto
    then show "in_range (node_x ?cur) (node_y ?cur) ?rows ?cols \<and>
               (\<exists>s2. expand F ?rows ?cols goal ?cur offsets ?s1 = Inr s2 \<and> ?I s2)"
      using rng e by blast
  qed simp
  then obtain st' where "search_loop F tie ?rows ?cols goal ?st = Inr (st', None)"
    by blast
  moreover have "\<not> (?rows < 0 \<or> ?cols < 0)" using start by (simp add: in_range_def)
  moreover have "heuristic_ok (fst start) (snd start) (fst goal) (snd goal)"
    using near start by (rule goal_near_ok)
  ultimately show ?thesis using gne start
    by (simp add: aStarSearch_def aStarSearch_run_def Let_def)
qed


theorem invalid_goal_empty_path_witness:
  "isValid 0 1 1 2 [[0, 1]] = Inr False \<and>
   aStarSearch exact_ops tie_first [[0, 1]] (0, 0) (0, 1) = Inr []"
  using invalid_goal_empty_path [of "[[0, 1]]" "(0, 0)" "(0, 1)" exact_ops tie_first]
  by (simp add: isValid_def in_range_def rectangular_def grid_rows_def grid_cols_def
        size_to_int_def goal_near_def heuristic_ok_def INT_MAX_def INT_MIN_def)


section \<open>The search always returns on a rectangular grid\<close>

text \<open>On a rectangular grid, from a start inside it and for a goal near it, the search
  returns a path, and the path visits no cell twice: it has at most \<open>rows \<times> cols\<close>
  coordinates.\<close>

lemma expand_new_nodes:
  assumes e: "expand F rows cols goal current offs st = Inr st'"
  shows "\<exists>new. openList st' = openList st @ new \<and>
           (\<forall>n\<in>set new. parent n = Some current \<and> node_pos n \<notin> closed st \<and>
               isValid (node_x n) (node_y n) rows cols (st_grid st) = Inr True)"
proof -
  from expand_new[OF e] obtain new where
    a: "openList st' = openList st @ new"
       "\<forall>n\<in>set new. parent n = Some current \<and>
           isValid (node_x n) (node_y n) rows cols (st_grid st) = Inr True"
    by blast
  from expand_frame[OF e] obtain new' where
    b: "openList st' = openList st @ new'" "\<forall>n\<in>set new'. node_pos n \<notin> closed st"
    by blast
  from a(1) b(1) have "new' = new" by simp
  with a b show ?thesis by blast
qed

lemma card_cells: "card ({0..<rows} \<times> {0..<cols :: int}) = nat rows * nat cols"
  by (simp add: card_cartesian_product)

lemma aStarSearch_total:
  fixes F :: "'d double_ops"
  assumes rect: "rectangular g"
    and start: "in_range (fst start) (snd start) (grid_rows g) (grid_cols g)"
    and near: "goal_near (grid_rows g) (grid_cols g) goal"
  shows "\<exists>p. aStarSearch F tie g start goal = Inr p \<and>
             length p \<le> length g * length (g ! 0)"
proof -
  let ?rows = "grid_rows g" and ?cols = "grid_cols g"
  let ?cells = "{0..<?rows} \<times> {0..<?cols}"
  let ?n = "Node (fst start) (snd start) (d_of_int F 0) (d_of_int F 0)
              (heuristic F (fst start) (snd start) (fst goal) (snd goal)) None"
  let ?st = "\<lparr>st_grid = g, openList = pq_push ?n [], closed = {}, allNodes = [start \<mapsto> ?n],
             allocated = [?n]\<rparr>"
  let ?I = "\<lambda>s. st_grid s = g \<and> closed s \<subseteq> ?cells \<and>
               (\<forall>m\<in>set (openList s). node_pos m \<in> ?cells \<and>
                   distinct (follow_parents (Some m)) \<and>
                   set (follow_parents (parent m)) \<subseteq> closed s)"
  let ?Q = "\<lambda>(s :: 'd search_state) (r :: 'd Node option).
               distinct (follow_parents r) \<and> set (follow_parents r) \<subseteq> ?cells"
  have gne: "g \<noteq> []" using start by (auto simp: in_range_def)
  have "\<exists>st' r. search_loop F tie ?rows ?cols goal ?st = Inr (st', r) \<and> ?Q st' r"
  proof (rule search_loop_total[where I = ?I and Q = ?Q])
    show "?I ?st" using start
      by (cases start) (auto simp: pq_push_def node_pos_def in_range_def)
  next
    fix s :: "'d search_state"
    assume "?I s" "openList s = []"
    show "?Q s None" by simp
  next
    fix s :: "'d search_state" and i
    assume I: "?I s" and il: "i < length (openList s)"
    let ?m = "openList s ! i"
    have m: "?m \<in> set (openList s)" using il by simp
    have "set (follow_parents (Some ?m)) \<subseteq> ?cells"
      using I m by (subst follow_parents_Some) auto
    then show "?Q (s\<lparr>openList := pq_remove i (openList s)\<rparr>) (Some ?m)"
      using I m by blast
  next
    fix s :: "'d search_state" and i
    assume I: "?I s" and il: "i < length (openList s)"
    let ?cur = "openList s ! i"
    let ?s1 = "s\<lparr>openList := pq_remove i (openList s),
                 closed := insert (node_pos ?cur) (closed s)\<rparr>"
    have cm: "?cur \<in> set (openList s)" using il by simp
    have cpos: "node_pos ?cur \<in> ?cells" using I cm by blast
    have rng: "in_range (node_x ?cur) (node_y ?cur) ?rows ?cols"
      using cpos by (auto simp: in_range_def node_pos_def)
    have cd: "distinct (follow_parents (Some ?cur))" using I cm by blast
    have cs: "set (follow_parents (Some ?cur)) \<subseteq> closed ?s1"
      using I cm by (subst follow_parents_Some) auto
    have g1: "st_grid ?s1 = g" using I by simp
    from expand_total[of ?s1 ?rows ?cols goal F ?cur offsets] rect g1 near
    obtain s2 where e: "expand F ?rows ?cols goal ?cur offsets ?s1 = Inr s2"
      by auto
    from expand_new_nodes[OF e] obtain new where
      o: "openList s2 = pq_remove i (openList s) @ new" and
      n: "\<forall>m\<in>set new. parent m = Some ?cur \<and> node_pos m \<notin> closed ?s1 \<and>
             isValid (node_x m) (node_y m) ?rows ?cols g = Inr True"
      using g1 by auto
    have fr: "st_grid s2 = g" "closed s2 = closed ?s1"
      using expand_frame[OF e] g1 by simp_all
    have newok: "node_pos m \<in> ?cells \<and> distinct (follow_parents (Some m)) \<and>
                 set (follow_parents (parent m)) \<subseteq> closed s2"
      if "m \<in> set new" for m
    proof -
      have p: "parent m = Some ?cur" and nc: "node_pos m \<notin> closed ?s1"
        and v: "isValid (node_x m) (node_y m) ?rows ?cols g = Inr True"
        using n that by simp_all
      have "in_range (node_x m) (node_y m) ?rows ?cols" using v by (rule isValid_TrueD)
      then have a: "node_pos m \<in> ?cells" by (auto simp: in_range_def node_pos_def)
      have b: "set (follow_parents (parent m)) \<subseteq> closed s2" using p cs fr by simp
      have "node_pos m \<notin> set (follow_parents (Some ?cur))" using nc cs by blast
      then have c: "distinct (follow_parents (Some m))"
        using cd p by (subst follow_parents_Some) simp
      show ?thesis using a b c by simp
    qed
    have oldok: "node_pos m \<in> ?cells \<and> distinct (follow_parents (Some m)) \<and>
                 set (follow_parents (parent m)) \<subseteq> closed s2"
      if "m \<in> set (pq_remove i (openList s))" for m
    proof -
      have "m \<in> set (openList s)" using that set_pq_remove by blast
      then show ?thesis using I fr by auto
    qed
    have "closed s2 \<subseteq> ?cells" using fr I cpos by auto
    then have "?I s2" using fr o newok oldok by auto
    then show "in_range (node_x ?cur) (node_y ?cur) ?rows ?cols \<and>
               (\<exists>s2. expand F ?rows ?cols goal ?cur offsets ?s1 = Inr s2 \<and> ?I s2)"
      using rng e by blast
  qed
  then obtain st' r where run: "search_loop F tie ?rows ?cols goal ?st = Inr (st', r)"
    and d: "distinct (follow_parents r)" and sub: "set (follow_parents r) \<subseteq> ?cells"
    by blast
  have "length (follow_parents r) = card (set (follow_parents r))"
    using d by (simp add: distinct_card)
  also have "\<dots> \<le> card ?cells" using sub by (intro card_mono) simp_all
  also have "\<dots> = nat ?rows * nat ?cols" by (simp add: card_cells)
  also have "\<dots> \<le> length g * length (g ! 0)"
    using grid_rows_le[of g] grid_cols_le[of g] by (intro mult_le_mono) simp_all
  finally have len: "length (follow_parents r) \<le> length g * length (g ! 0)" .
  have "\<not> (?rows < 0 \<or> ?cols < 0)" using start by (simp add: in_range_def)
  moreover have "heuristic_ok (fst start) (snd start) (fst goal) (snd goal)"
    using near start by (rule goal_near_ok)
  ultimately
  have "aStarSearch F tie g start goal = Inr (if r \<noteq> None then reconstructPath r else [])"
    using run gne start by (simp add: aStarSearch_def aStarSearch_run_def Let_def)
  then show ?thesis using len by (auto simp: reconstructPath_def)
qed

section \<open>One maze is solved and counted\<close>

definition has_dims :: "Grid \<Rightarrow> nat \<Rightarrow> nat \<Rightarrow> bool" where
  "has_dims g r c = (length g = r \<and> (\<forall>row\<in>set g. length row = c))"

lemma has_dims_update:
  assumes "has_dims g r c"
  shows "has_dims (g[x := (g ! x)[y := v]]) r c"
proof (cases "x < length g")
  case True
  then have "length (g ! x) = c" using assms by (simp add: has_dims_def)
  then show ?thesis
    using assms set_update_subset_insert[of g x "(g ! x)[y := v]"]
    by (auto simp: has_dims_def)
next
  case False
  then have "g[x := (g ! x)[y := v]] = g" by (simp add: list_update_beyond)
  then show ?thesis using assms by simp
qed

lemma has_dims_random_obstacles:
  "has_dims g r c \<Longrightarrow> has_dims (random_obstacles rnd rows cols k n g) r c"
proof (induction n arbitrary: k g)
  case 0
  then show ?case by simp
next
  case (Suc n)
  then show ?case by (simp add: Let_def has_dims_update)
qed

lemma has_dims_rectangular:
  assumes "has_dims g r c" "0 < r"
  shows "rectangular g \<and> length g = r \<and> length (g ! 0) = c"
proof -
  have "g ! 0 \<in> set g" using assms by (simp add: has_dims_def)
  then show ?thesis using assms by (simp add: has_dims_def rectangular_def)
qed

lemma solveMaze_total:
  fixes F :: "'d double_ops"
  assumes sz: "1 \<le> rows" "1 \<le> cols"
    and s: "0 \<le> totalPathLength s" "0 \<le> successfulMazes s"
      "successfulMazes s \<le> mazeAttempts s"
    and b: "mazeAttempts s + 1 \<le> INT_MAX" "totalPathLength s + rows * cols \<le> INT_MAX"
  shows "\<exists>k' s'. solveMaze F tie rnd rows cols (k, s) = Inr (k', s') \<and>
           mazeAttempts s' = mazeAttempts s + 1 \<and>
           totalPathLength s \<le> totalPathLength s' \<and>
           totalPathLength s' \<le> totalPathLength s + rows * cols \<and>
           successfulMazes s \<le> successfulMazes s' \<and>
           successfulMazes s' \<le> mazeAttempts s'"
proof -
  let ?n = "nat (rows * cols div 5)"
  let ?g = "random_obstacles rnd rows cols k ?n (replicate (nat rows) (replicate (nat cols) 0))"
  have "has_dims (replicate (nat rows) (replicate (nat cols) 0)) (nat rows) (nat cols)"
    by (simp add: has_dims_def)
  then have "has_dims ?g (nat rows) (nat cols)" by (rule has_dims_random_obstacles)
  then have g: "rectangular ?g" "length ?g = nat rows" "length (?g ! 0) = nat cols"
    using has_dims_rectangular[of ?g "nat rows" "nat cols"] sz by simp_all
  have rc: "rows * cols \<le> INT_MAX" using b(2) s(1) by simp
  have "rows * 1 \<le> rows * cols" using sz by (intro mult_left_mono) simp_all
  then have rs: "rows < 2 ^ 31" using rc by (simp add: INT_MAX_def)
  have "1 * cols \<le> rows * cols" using sz by (intro mult_right_mono) simp_all
  then have cs: "cols < 2 ^ 31" using rc by (simp add: INT_MAX_def)
  have gr: "grid_rows ?g = rows" using g(2) rs sz by (simp add: grid_rows_small)
  have gc: "grid_cols ?g = cols" using g(3) cs sz by (simp add: grid_cols_small)
  have st: "in_range (fst (0 :: int, 0 :: int)) (snd (0 :: int, 0 :: int))
              (grid_rows ?g) (grid_cols ?g)"
    using sz gr gc by (simp add: in_range_def)
  have "in_range (fst (rows - 1, cols - 1)) (snd (rows - 1, cols - 1))
          (grid_rows ?g) (grid_cols ?g)"
    using sz gr gc by (simp add: in_range_def)
  then have near: "goal_near (grid_rows ?g) (grid_cols ?g) (rows - 1, cols - 1)"
    by (rule in_grid_goal_near)
  from aStarSearch_total[OF g(1) st near, of F tie] obtain p where
    p: "aStarSearch F tie ?g (0, 0) (rows - 1, cols - 1) = Inr p" and
    len: "length p \<le> length ?g * length (?g ! 0)"
    by blast
  have "length p \<le> nat rows * nat cols" using len g by simp
  then have "int (length p) \<le> int (nat rows * nat cols)" by (rule iffD2[OF of_nat_le_iff])
  also have "\<dots> = int (nat rows) * int (nat cols)" by (rule of_nat_mult)
  also have "\<dots> = rows * cols" using sz by simp
  finally have lp: "int (length p) \<le> rows * cols" .
  have "int (length p) < 2 ^ 31" using lp rc by (simp add: INT_MAX_def)
  then have conv: "size_to_int (length p) = int (length p)" by (rule size_to_int_small)
  have ma: "0 \<le> mazeAttempts s" using s by simp
  have ra: "record_attempt (int (length p)) s =
           Inr \<lparr>totalPathLength = totalPathLength s + int (length p),
                successfulMazes = successfulMazes s + (if 0 < int (length p) then 1 else 0),
                mazeAttempts = mazeAttempts s + 1\<rparr>"
    using s b lp ma by (intro record_attempt_ok) simp_all
  have neg: "\<not> (rows < 0 \<or> cols < 0)" "\<not> rows * cols > INT_MAX" using sz rc by simp_all
  have "solveMaze F tie rnd rows cols (k, s) =
          Inr (k + 2 * ?n,
               \<lparr>totalPathLength = totalPathLength s + int (length p),
                successfulMazes = successfulMazes s + (if 0 < int (length p) then 1 else 0),
                mazeAttempts = mazeAttempts s + 1\<rparr>)"
    unfolding solveMaze_def Let_def fst_conv snd_conv
    using neg p conv ra by simp
  then show ?thesis using lp s by auto
qed

section \<open>Path length on an obstacle-free grid\<close>

subsection \<open>Distances on the grid\<close>

text \<open>
  For a displacement \<open>(u, v)\<close>: the number of king moves (\<open>cheb\<close>), the Manhattan
  length, the cost of a cheapest 8-connected path when an orthogonal step costs 1 and a
  diagonal step \<open>sqrt 2\<close> (\<open>oct\<close>), and the Euclidean length.
\<close>

definition cheb :: "int \<Rightarrow> int \<Rightarrow> int" where
  "cheb u v = max \<bar>u\<bar> \<bar>v\<bar>"

definition manh :: "int \<Rightarrow> int \<Rightarrow> int" where
  "manh u v = \<bar>u\<bar> + \<bar>v\<bar>"

definition oct :: "int \<Rightarrow> int \<Rightarrow> real" where
  "oct u v = (2 - sqrt 2) * real_of_int (cheb u v) + (sqrt 2 - 1) * real_of_int (manh u v)"

definition euclid :: "int \<Rightarrow> int \<Rightarrow> real" where
  "euclid u v = sqrt (real_of_int (u * u + v * v))"

lemma sqrt2_bounds: "1 < sqrt 2" "sqrt 2 < 2"
proof -
  show "1 < sqrt 2" using real_sqrt_less_iff[of 1 2] by simp
  show "sqrt 2 < 2" using real_sqrt_less_iff[of 2 4] by simp
qed

lemma oct_nonneg: "0 \<le> oct u v"
  using sqrt2_bounds by (simp add: oct_def cheb_def manh_def)

lemma oct_triangle: "oct (u1 + u2) (v1 + v2) \<le> oct u1 v1 + oct u2 v2"
proof -
  have c: "cheb (u1 + u2) (v1 + v2) \<le> cheb u1 v1 + cheb u2 v2"
    unfolding cheb_def by arith
  have m: "manh (u1 + u2) (v1 + v2) \<le> manh u1 v1 + manh u2 v2"
    unfolding manh_def by arith
  have c': "real_of_int (cheb (u1 + u2) (v1 + v2)) \<le> real_of_int (cheb u1 v1) + real_of_int (cheb u2 v2)"
    using c by linarith
  have m': "real_of_int (manh (u1 + u2) (v1 + v2)) \<le> real_of_int (manh u1 v1) + real_of_int (manh u2 v2)"
    using m by linarith
  have "(2 - sqrt 2) * real_of_int (cheb (u1 + u2) (v1 + v2)) \<le>
        (2 - sqrt 2) * (real_of_int (cheb u1 v1) + real_of_int (cheb u2 v2))"
    using c' sqrt2_bounds by (intro mult_left_mono) simp_all
  moreover have "(sqrt 2 - 1) * real_of_int (manh (u1 + u2) (v1 + v2)) \<le>
        (sqrt 2 - 1) * (real_of_int (manh u1 v1) + real_of_int (manh u2 v2))"
    using m' sqrt2_bounds by (intro mult_left_mono) simp_all
  ultimately show ?thesis by (simp add: oct_def algebra_simps)
qed

lemma euclid_triangle: "euclid (u1 + u2) (v1 + v2) \<le> euclid u1 v1 + euclid u2 v2"
proof -
  have "sqrt ((real_of_int u1 + real_of_int u2)\<^sup>2 + (real_of_int v1 + real_of_int v2)\<^sup>2)
        \<le> sqrt ((real_of_int u1)\<^sup>2 + (real_of_int v1)\<^sup>2)
          + sqrt ((real_of_int u2)\<^sup>2 + (real_of_int v2)\<^sup>2)"
    by (rule real_sqrt_sum_squares_triangle_ineq)
  then show ?thesis by (simp add: euclid_def power2_eq_square)
qed

lemma sqrt_le_octile:
  fixes x y :: real
  assumes "0 \<le> y" "y \<le> x"
  shows "sqrt (x * x + y * y) \<le> x + (sqrt 2 - 1) * y"
proof -
  let ?s = "sqrt 2 - 1"
  have r: "sqrt 2 * sqrt 2 = 2" by simp
  have s0: "0 \<le> ?s" using sqrt2_bounds by simp
  have s2: "?s * ?s = 1 - 2 * ?s" using r by (simp add: algebra_simps)
  have rhs0: "0 \<le> x + ?s * y" using assms s0 by simp
  have "(x + ?s * y)\<^sup>2 = x * x + 2 * ?s * x * y + (?s * ?s) * (y * y)"
    by (simp add: power2_eq_square algebra_simps)
  also have "\<dots> = x * x + y * y + 2 * ?s * (y * (x - y))"
    unfolding s2 by (simp add: algebra_simps)
  finally have eq: "(x + ?s * y)\<^sup>2 = x * x + y * y + 2 * ?s * (y * (x - y))" .
  have "0 \<le> 2 * ?s * (y * (x - y))" using assms s0 by simp
  then have "x * x + y * y \<le> (x + ?s * y)\<^sup>2" using eq by simp
  then show ?thesis using rhs0 by (intro real_le_lsqrt) simp_all
qed

lemma oct_alt: "oct u v = real_of_int (cheb u v) + (sqrt 2 - 1) * real_of_int (min \<bar>u\<bar> \<bar>v\<bar>)"
proof -
  have "manh u v = cheb u v + min \<bar>u\<bar> \<bar>v\<bar>" unfolding manh_def cheb_def by arith
  then show ?thesis by (simp add: oct_def algebra_simps)
qed

lemma euclid_le_oct: "euclid u v \<le> oct u v"
proof (cases "\<bar>v\<bar> \<le> \<bar>u\<bar>")
  case True
  have e: "euclid u v = sqrt (real_of_int \<bar>u\<bar> * real_of_int \<bar>u\<bar> + real_of_int \<bar>v\<bar> * real_of_int \<bar>v\<bar>)"
    by (simp add: euclid_def)
  have "sqrt (real_of_int \<bar>u\<bar> * real_of_int \<bar>u\<bar> + real_of_int \<bar>v\<bar> * real_of_int \<bar>v\<bar>)
        \<le> real_of_int \<bar>u\<bar> + (sqrt 2 - 1) * real_of_int \<bar>v\<bar>"
    using True by (intro sqrt_le_octile) simp_all
  moreover have "cheb u v = \<bar>u\<bar>" "min \<bar>u\<bar> \<bar>v\<bar> = \<bar>v\<bar>" using True by (simp_all add: cheb_def)
  ultimately show ?thesis unfolding e oct_alt by simp
next
  case False
  have e: "euclid u v = sqrt (real_of_int \<bar>v\<bar> * real_of_int \<bar>v\<bar> + real_of_int \<bar>u\<bar> * real_of_int \<bar>u\<bar>)"
    by (simp add: euclid_def add.commute)
  have "sqrt (real_of_int \<bar>v\<bar> * real_of_int \<bar>v\<bar> + real_of_int \<bar>u\<bar> * real_of_int \<bar>u\<bar>)
        \<le> real_of_int \<bar>v\<bar> + (sqrt 2 - 1) * real_of_int \<bar>u\<bar>"
    using False by (intro sqrt_le_octile) simp_all
  moreover have "cheb u v = \<bar>v\<bar>" "min \<bar>u\<bar> \<bar>v\<bar> = \<bar>u\<bar>" using False by (simp_all add: cheb_def)
  ultimately show ?thesis unfolding e oct_alt by simp
qed

lemma offsets_iff:
  "(a, b) \<in> set offsets \<longleftrightarrow> \<bar>a\<bar> \<le> 1 \<and> \<bar>b\<bar> \<le> 1 \<and> (a, b) \<noteq> (0, 0)"
proof -
  have a: "\<bar>a\<bar> \<le> 1 \<longleftrightarrow> a = -1 \<or> a = 0 \<or> a = 1" by arith
  have b: "\<bar>b\<bar> \<le> 1 \<longleftrightarrow> b = -1 \<or> b = 0 \<or> b = 1" by arith
  show ?thesis unfolding a b set_offsets by auto
qed

lemma cheb_offset: "(a, b) \<in> set offsets \<Longrightarrow> cheb a b = 1"
  unfolding offsets_iff cheb_def by auto

lemma manh_offset_bounds: "(a, b) \<in> set offsets \<Longrightarrow> 1 \<le> manh a b \<and> manh a b \<le> 2"
  unfolding offsets_iff manh_def by auto

lemma sq_unit:
  fixes a :: int
  assumes "\<bar>a\<bar> \<le> 1"
  shows "a * a = \<bar>a\<bar>"
proof -
  from assms have "a = -1 \<or> a = 0 \<or> a = 1" by arith
  then show ?thesis by auto
qed

lemma euclid_offset:
  assumes "(a, b) \<in> set offsets"
  shows "euclid a b = oct a b"
proof -
  have c: "cheb a b = 1" using assms by (rule cheb_offset)
  have ab: "\<bar>a\<bar> \<le> 1" "\<bar>b\<bar> \<le> 1" using assms unfolding offsets_iff by simp_all
  have sq: "a * a + b * b = manh a b"
    using sq_unit[OF ab(1)] sq_unit[OF ab(2)] by (simp add: manh_def)
  from assms have "manh a b = 1 \<or> manh a b = 2" using manh_offset_bounds[of a b] by arith
  then show ?thesis
  proof
    assume m: "manh a b = 1"
    show ?thesis unfolding euclid_def oct_def sq c m by simp
  next
    assume m: "manh a b = 2"
    show ?thesis unfolding euclid_def oct_def sq c m by simp
  qed
qed

lemma sqrt2_lt: "sqrt 2 < 3 / 2"
  by (rule real_less_lsqrt) (simp_all add: power2_eq_square)

lemma toward:
  assumes "(u, v) \<noteq> (0, 0)"
  shows "(sgn u, sgn v) \<in> set offsets \<and>
         cheb (u - sgn u) (v - sgn v) = cheb u v - 1 \<and>
         oct (sgn u) (sgn v) + oct (u - sgn u) (v - sgn v) = oct u v"
proof -
  have o: "(sgn u, sgn v) \<in> set offsets"
    using assms unfolding offsets_iff by (auto simp: sgn_if)
  have c: "cheb (u - sgn u) (v - sgn v) = cheb u v - 1"
    using assms unfolding cheb_def sgn_if by (auto split: if_splits)
  have c1: "cheb (sgn u) (sgn v) = 1" using o by (rule cheb_offset)
  have m: "manh (sgn u) (sgn v) + manh (u - sgn u) (v - sgn v) = manh u v"
    unfolding manh_def sgn_if by (auto split: if_splits)
  have "oct (sgn u) (sgn v) + oct (u - sgn u) (v - sgn v) =
        (2 - sqrt 2) * real_of_int (cheb (sgn u) (sgn v) + cheb (u - sgn u) (v - sgn v)) +
        (sqrt 2 - 1) * real_of_int (manh (sgn u) (sgn v) + manh (u - sgn u) (v - sgn v))"
    by (simp add: oct_def algebra_simps)
  also have "\<dots> = oct u v" unfolding m c c1 by (simp add: oct_def)
  finally show ?thesis using o c by simp
qed

lemma octile_gap:
  fixes nm D ws Mh :: int
  assumes "D \<le> nm" "Mh \<le> ws"
    and "(2 - sqrt 2) * real_of_int nm + (sqrt 2 - 1) * real_of_int ws
          < (2 - sqrt 2) * real_of_int D + (sqrt 2 - 1) * real_of_int Mh + (sqrt 2 - 1)"
  shows "nm = D \<and> ws = Mh"
proof -
  have pos: "0 < 2 - sqrt 2" "0 < sqrt 2 - 1" using sqrt2_bounds by simp_all
  have big: "sqrt 2 - 1 < 2 - sqrt 2" using sqrt2_lt by simp
  have a: "(2 - sqrt 2) * real_of_int D \<le> (2 - sqrt 2) * real_of_int nm"
    using assms(1) pos by simp
  have b: "(sqrt 2 - 1) * real_of_int Mh \<le> (sqrt 2 - 1) * real_of_int ws"
    using assms(2) pos by simp
  have "nm = D"
  proof (rule ccontr)
    assume "nm \<noteq> D"
    then have "D + 1 \<le> nm" using assms(1) by simp
    then have "real_of_int D + 1 \<le> real_of_int nm" by linarith
    then have "(2 - sqrt 2) * (real_of_int D + 1) \<le> (2 - sqrt 2) * real_of_int nm"
      using pos by (intro mult_left_mono) simp_all
    then show False using assms(3) b big by (simp add: algebra_simps)
  qed
  moreover have "ws = Mh"
  proof (rule ccontr)
    assume "ws \<noteq> Mh"
    then have "Mh + 1 \<le> ws" using assms(2) by simp
    then have "real_of_int Mh + 1 \<le> real_of_int ws" by linarith
    then have "(sqrt 2 - 1) * (real_of_int Mh + 1) \<le> (sqrt 2 - 1) * real_of_int ws"
      using pos by (intro mult_left_mono) simp_all
    then show False using assms(3) a by (simp add: algebra_simps)
  qed
  ultimately show ?thesis by simp
qed

subsection \<open>The cost of a node's chain of predecessors\<close>

text \<open>The number of steps from the start node to a node, the sum of the Manhattan
  lengths of these steps, and the exact cost of the steps.\<close>

fun moves :: "'d Node \<Rightarrow> nat" where
  "moves (Node x y f g h None) = 0"
| "moves (Node x y f g h (Some p)) = Suc (moves p)"

fun wsum :: "'d Node \<Rightarrow> int" where
  "wsum (Node x y f g h None) = 0"
| "wsum (Node x y f g h (Some p)) = wsum p + manh (x - node_x p) (y - node_y p)"

definition cost :: "'d Node \<Rightarrow> real" where
  "cost n = (2 - sqrt 2) * real (moves n) + (sqrt 2 - 1) * real_of_int (wsum n)"

lemma length_follow_parents: "length (follow_parents (Some n)) = Suc (moves n)"
  by (induction n rule: moves.induct) simp_all

lemma chain_ok_root: "chain_ok start n \<Longrightarrow> parent n = None \<Longrightarrow> node_pos n = start"
  by (cases n) (auto simp: node_pos_def)

lemma cost_root: "parent n = None \<Longrightarrow> cost n = 0"
  by (cases n) (auto simp: cost_def)

lemma chain_ok_child:
  "chain_ok start n \<Longrightarrow> parent n = Some p \<Longrightarrow>
     chain_ok start p \<and> (node_x n - node_x p, node_y n - node_y p) \<in> set offsets"
  by (cases n) auto

lemma moves_child: "parent n = Some p \<Longrightarrow> moves n = Suc (moves p)"
  by (cases n) auto

lemma wsum_child:
  "parent n = Some p \<Longrightarrow> wsum n = wsum p + manh (node_x n - node_x p) (node_y n - node_y p)"
  by (cases n) auto

lemma oct_offset:
  assumes "(a, b) \<in> set offsets"
  shows "oct a b = (2 - sqrt 2) + (sqrt 2 - 1) * real_of_int (manh a b)"
  using cheb_offset[OF assms] by (simp add: oct_def)

lemma cost_child:
  assumes "parent n = Some p" "(node_x n - node_x p, node_y n - node_y p) \<in> set offsets"
  shows "cost n = cost p + oct (node_x n - node_x p) (node_y n - node_y p)"
  unfolding cost_def moves_child[OF assms(1)] wsum_child[OF assms(1)] oct_offset[OF assms(2)]
  by (simp add: algebra_simps)

lemma chain_lower:
  "chain_ok start n \<Longrightarrow>
     cheb (node_x n - fst start) (node_y n - snd start) \<le> int (moves n) \<and>
     manh (node_x n - fst start) (node_y n - snd start) \<le> wsum n \<and>
     int (moves n) \<le> wsum n \<and> wsum n \<le> 2 * int (moves n)"
proof (induction start n rule: chain_ok.induct)
  case (1 start x y f g h)
  then show ?case by (auto simp: cheb_def manh_def)
next
  case (2 start x y f g h p)
  then have ok: "chain_ok start p" and off: "(x - node_x p, y - node_y p) \<in> set offsets"
    by simp_all
  note IH = "2.IH"[OF ok]
  have c1: "cheb (x - node_x p) (y - node_y p) = 1" using off by (rule cheb_offset)
  have m1: "1 \<le> manh (x - node_x p) (y - node_y p)" "manh (x - node_x p) (y - node_y p) \<le> 2"
    using manh_offset_bounds[OF off] by simp_all
  have "cheb (x - fst start) (y - snd start) \<le>
        cheb (node_x p - fst start) (node_y p - snd start) + cheb (x - node_x p) (y - node_y p)"
    unfolding cheb_def by arith
  moreover have "manh (x - fst start) (y - snd start) \<le>
        manh (node_x p - fst start) (node_y p - snd start) + manh (x - node_x p) (y - node_y p)"
    unfolding manh_def by arith
  ultimately show ?case using IH c1 m1 by simp
qed

lemma cost_lower:
  assumes "chain_ok start n"
  shows "oct (node_x n - fst start) (node_y n - snd start) \<le> cost n"
proof -
  note l = chain_lower[OF assms]
  have a: "real_of_int (cheb (node_x n - fst start) (node_y n - snd start)) \<le> real (moves n)"
    using l by linarith
  have b: "real_of_int (manh (node_x n - fst start) (node_y n - snd start)) \<le> real_of_int (wsum n)"
    using l by linarith
  have "(2 - sqrt 2) * real_of_int (cheb (node_x n - fst start) (node_y n - snd start))
          \<le> (2 - sqrt 2) * real (moves n)"
    using a sqrt2_bounds by (intro mult_left_mono) simp_all
  moreover have "(sqrt 2 - 1) * real_of_int (manh (node_x n - fst start) (node_y n - snd start))
          \<le> (sqrt 2 - 1) * real_of_int (wsum n)"
    using b sqrt2_bounds by (intro mult_left_mono) simp_all
  ultimately show ?thesis unfolding oct_def cost_def by (rule add_mono)
qed

lemma cost_gap:
  assumes "chain_ok start n"
    and "cost n < oct (node_x n - fst start) (node_y n - snd start) + (sqrt 2 - 1)"
  shows "int (moves n) = cheb (node_x n - fst start) (node_y n - snd start) \<and>
         cost n = oct (node_x n - fst start) (node_y n - snd start)"
proof -
  note l = chain_lower[OF assms(1)]
  have "int (moves n) = cheb (node_x n - fst start) (node_y n - snd start) \<and>
        wsum n = manh (node_x n - fst start) (node_y n - snd start)"
    using l assms(2) by (intro octile_gap) (simp_all add: cost_def oct_def)
  then show ?thesis by (simp add: cost_def oct_def)
qed

lemma cost_bounds:
  assumes "chain_ok start n"
  shows "real (moves n) \<le> cost n \<and> cost n \<le> 2 * real (moves n)"
proof -
  note l = chain_lower[OF assms]
  have a: "real (moves n) \<le> real_of_int (wsum n)" using l by linarith
  have b: "real_of_int (wsum n) \<le> 2 * real (moves n)" using l by linarith
  have s: "0 \<le> sqrt 2 - 1" using sqrt2_bounds by simp
  have "(sqrt 2 - 1) * real (moves n) \<le> (sqrt 2 - 1) * real_of_int (wsum n)"
    using a s by (rule mult_left_mono)
  moreover have "(sqrt 2 - 1) * real_of_int (wsum n) \<le> (sqrt 2 - 1) * (2 * real (moves n))"
    using b s by (rule mult_left_mono)
  moreover have "sqrt 2 * real (moves n) \<le> 2 * real (moves n)"
    using sqrt2_bounds by (intro mult_right_mono) simp_all
  ultimately show ?thesis unfolding cost_def by (simp add: algebra_simps)
qed

subsection \<open>The queue returns a node of least \<open>f\<close>\<close>

definition cells :: "int \<Rightarrow> int \<Rightarrow> Coord set" where
  "cells rows cols = {0..<rows} \<times> {0..<cols}"

lemma cells_iff: "(x, y) \<in> cells rows cols \<longleftrightarrow> in_range x y rows cols"
  by (auto simp: cells_def in_range_def)

lemma pq_top_minimal:
  fixes F :: "real double_ops"
  assumes less: "\<forall>a b. d_less F a b \<longleftrightarrow> a < b" and ne: "q \<noteq> []"
  shows "\<forall>m\<in>set q. node_f (q ! pq_top_index F tie q) \<le> node_f m"
proof -
  let ?cs = "top_candidates F q"
  have mem: "i \<in> set ?cs \<longleftrightarrow> i < length q \<and> (\<forall>m\<in>set q. node_f (q ! i) \<le> node_f m)" for i
    using less by (auto simp: top_candidates_def list_all_iff not_less)
  have fin: "finite (node_f ` set q)" "node_f ` set q \<noteq> {}" using ne by simp_all
  from Min_in[OF fin] obtain n where n: "n \<in> set q" "node_f n = Min (node_f ` set q)"
    by auto
  then obtain i where i: "i < length q" "q ! i = n" by (auto simp: in_set_conv_nth)
  have "\<forall>m\<in>set q. node_f (q ! i) \<le> node_f m"
    using i n fin by (simp add: Min_le)
  then have "i \<in> set ?cs" using i mem by blast
  then have cne: "?cs \<noteq> []" by auto
  then have "?cs ! (tie q mod length ?cs) \<in> set ?cs" by (intro nth_mem) simp
  then have "pq_top_index F tie q \<in> set ?cs" using cne by (simp add: pq_top_index_def Let_def)
  then show ?thesis using mem by blast
qed

lemma frontier:
  assumes sC: "start \<in> C" and q: "q \<notin> C" "q \<in> cells rows cols"
    and s: "start \<in> cells rows cols"
  shows "\<exists>a\<in>C. \<exists>off\<in>set offsets.
           (fst a + fst off, snd a + snd off) \<notin> C \<and>
           (fst a + fst off, snd a + snd off) \<in> cells rows cols \<and>
           oct (fst a - fst start) (snd a - snd start) + oct (fst off) (snd off) +
             oct (fst q - (fst a + fst off)) (snd q - (snd a + snd off))
             = oct (fst q - fst start) (snd q - snd start)"
proof -
  have main: "a \<in> C \<Longrightarrow> a \<in> cells rows cols \<Longrightarrow>
        oct (fst a - fst start) (snd a - snd start) + oct (fst q - fst a) (snd q - snd a)
          = oct (fst q - fst start) (snd q - snd start) \<Longrightarrow> ?thesis" for a
  proof (induction "nat (cheb (fst q - fst a) (snd q - snd a))" arbitrary: a rule: less_induct)
    case less
    let ?u = "fst q - fst a" and ?v = "snd q - snd a"
    let ?off = "(sgn ?u, sgn ?v)"
    let ?b = "(fst a + sgn ?u, snd a + sgn ?v)"
    have "a \<noteq> q" using less.prems(1) q by auto
    then have nz: "(?u, ?v) \<noteq> (0, 0)" by (auto simp: prod_eq_iff)
    from toward[OF nz] have
      off: "?off \<in> set offsets" and
      ch: "cheb (?u - sgn ?u) (?v - sgn ?v) = cheb ?u ?v - 1" and
      oc: "oct (sgn ?u) (sgn ?v) + oct (?u - sgn ?u) (?v - sgn ?v) = oct ?u ?v"
      by simp_all
    have qb: "fst q - fst ?b = ?u - sgn ?u" "snd q - snd ?b = ?v - sgn ?v" by simp_all
    have bcell: "?b \<in> cells rows cols"
      using less.prems(2) q(2) unfolding cells_def sgn_if
      by (cases a; cases q) (auto split: if_splits)
    have t1: "oct (fst ?b - fst start) (snd ?b - snd start) \<le>
              oct (fst a - fst start) (snd a - snd start) + oct (sgn ?u) (sgn ?v)"
      using oct_triangle[of "fst a - fst start" "sgn ?u" "snd a - snd start" "sgn ?v"]
      by (simp add: algebra_simps)
    have t2: "oct (fst q - fst start) (snd q - snd start) \<le>
              oct (fst ?b - fst start) (snd ?b - snd start) + oct (?u - sgn ?u) (?v - sgn ?v)"
      using oct_triangle[of "fst ?b - fst start" "?u - sgn ?u" "snd ?b - snd start" "?v - sgn ?v"]
      by (simp add: algebra_simps)
    have eq1: "oct (fst ?b - fst start) (snd ?b - snd start) =
               oct (fst a - fst start) (snd a - snd start) + oct (sgn ?u) (sgn ?v)"
      using t1 t2 oc less.prems(3) by linarith
    have eq2: "oct (fst ?b - fst start) (snd ?b - snd start) + oct (fst q - fst ?b) (snd q - snd ?b)
               = oct (fst q - fst start) (snd q - snd start)"
      using t1 t2 oc less.prems(3) unfolding qb by linarith
    show ?case
    proof (cases "?b \<in> C")
      case False
      have "oct (fst a - fst start) (snd a - snd start) + oct (fst ?off) (snd ?off) +
             oct (fst q - (fst a + fst ?off)) (snd q - (snd a + snd ?off))
             = oct (fst q - fst start) (snd q - snd start)"
        using eq1 eq2 by simp
      then show ?thesis using less.prems(1) off False bcell
        by (intro bexI[of _ a] bexI[of _ ?off]) simp_all
    next
      case True
      have c0: "0 \<le> cheb ?u ?v" by (simp add: cheb_def)
      have cpos: "cheb ?u ?v \<noteq> 0" using nz by (auto simp: cheb_def)
      have "nat (cheb (fst q - fst ?b) (snd q - snd ?b)) < nat (cheb ?u ?v)"
        unfolding qb ch using c0 cpos by simp
      from less.hyps[OF this True bcell eq2] show ?thesis .
    qed
  qed
  have "oct 0 0 = 0" by (simp add: oct_def cheb_def manh_def)
  then show ?thesis using main[OF sC s] by simp
qed

subsection \<open>Arithmetic that may round\<close>

text \<open>
  The doubles are read as the reals they denote. \<open>accurate F \<delta> rows cols\<close> says what
  the proof needs of the operations: \<^verbatim>\<open><\<close> compares exactly, 0 converts to 0, and
  \<^verbatim>\<open>+\<close> (on operands of size up to \<open>2 * rows * cols + 1\<close>) and \<^verbatim>\<open>heuristic\<close> (on
  cells of the grid) are within \<open>\<delta>\<close> of the exact sum and of the Euclidean distance,
  with \<open>4 * \<delta> * (rows * cols + 1) < sqrt 2 - 1\<close>. Exact arithmetic has \<open>\<delta> = 0\<close>.
\<close>

definition accurate :: "real double_ops \<Rightarrow> real \<Rightarrow> int \<Rightarrow> int \<Rightarrow> bool" where
  "accurate F \<delta> rows cols \<longleftrightarrow>
     0 \<le> \<delta> \<and> 4 * \<delta> * (real_of_int (rows * cols) + 1) < sqrt 2 - 1 \<and>
     d_of_int F 0 = 0 \<and>
     (\<forall>a b. d_less F a b \<longleftrightarrow> a < b) \<and>
     (\<forall>a b. \<bar>a\<bar> \<le> 2 * real_of_int (rows * cols) + 1 \<longrightarrow>
            \<bar>b\<bar> \<le> 2 * real_of_int (rows * cols) + 1 \<longrightarrow>
            \<bar>d_add F a b - (a + b)\<bar> \<le> \<delta>) \<and>
     (\<forall>x1 y1 x2 y2. in_range x1 y1 rows cols \<longrightarrow> in_range x2 y2 rows cols \<longrightarrow>
            \<bar>heuristic F x1 y1 x2 y2 - euclid (x1 - x2) (y1 - y2)\<bar> \<le> \<delta>)"

definition good_node ::
  "real \<Rightarrow> Coord \<Rightarrow> Coord \<Rightarrow> int \<Rightarrow> int \<Rightarrow> Coord set \<Rightarrow> real Node \<Rightarrow> bool" where
  "good_node \<delta> start goal rows cols C n \<longleftrightarrow>
     chain_ok start n \<and> node_pos n \<in> cells rows cols \<and>
     distinct (follow_parents (Some n)) \<and> set (follow_parents (parent n)) \<subseteq> C \<and>
     \<bar>node_g n - cost n\<bar> \<le> 2 * \<delta> * real (moves n) \<and>
     node_f n \<le> cost n + euclid (node_x n - fst goal) (node_y n - snd goal)
                  + 2 * \<delta> * (real (moves n) + 1) \<and>
     (parent n \<noteq> None \<longrightarrow>
        cost n + euclid (node_x n - fst goal) (node_y n - snd goal)
          - 2 * \<delta> * (real (moves n) + 1) \<le> node_f n)"

lemma good_node_mono: "good_node \<delta> start goal rows cols C n \<Longrightarrow> C \<subseteq> C' \<Longrightarrow>
    good_node \<delta> start goal rows cols C' n"
  by (auto simp: good_node_def)

lemma cells_card: "card (cells rows cols) = nat rows * nat cols"
  by (simp add: cells_def card_cartesian_product)

lemma cells_nonempty:
  assumes "c \<in> cells rows cols"
  shows "1 \<le> rows \<and> 1 \<le> cols \<and> rows \<le> rows * cols \<and> cols \<le> rows * cols"
proof -
  have r: "1 \<le> rows" "1 \<le> cols" using assms by (auto simp: cells_def)
  have "rows * 1 \<le> rows * cols" using r by (intro mult_left_mono) simp_all
  moreover have "1 * cols \<le> rows * cols" using r by (intro mult_right_mono) simp_all
  ultimately show ?thesis using r by simp
qed

lemma good_moves:
  assumes g: "good_node \<delta> start goal rows cols C n" and C: "C \<subseteq> cells rows cols"
  shows "real (moves n) + 1 \<le> real_of_int (rows * cols)"
proof -
  have pos: "node_pos n \<in> cells rows cols" using g by (simp add: good_node_def)
  have sub: "set (follow_parents (Some n)) \<subseteq> cells rows cols"
    using g C by (subst follow_parents_Some) (auto simp: good_node_def)
  have d: "distinct (follow_parents (Some n))" using g by (simp add: good_node_def)
  have "Suc (moves n) = card (set (follow_parents (Some n)))"
    using d by (simp add: distinct_card length_follow_parents)
  also have "\<dots> \<le> card (cells rows cols)"
    using sub by (intro card_mono) (simp_all add: cells_def)
  also have "\<dots> = nat rows * nat cols" by (rule cells_card)
  finally have "Suc (moves n) \<le> nat rows * nat cols" .
  then have "int (Suc (moves n)) \<le> int (nat rows * nat cols)" by (rule iffD2[OF of_nat_le_iff])
  also have "\<dots> = int (nat rows) * int (nat cols)" by (rule of_nat_mult)
  also have "\<dots> = rows * cols" using cells_nonempty[OF pos] by simp
  finally have "int (moves n) + 1 \<le> rows * cols" by simp
  then show ?thesis by linarith
qed

lemma euclid_nonneg: "0 \<le> euclid u v"
  by (simp add: euclid_def)

lemma euclid_minus: "euclid (- u) (- v) = euclid u v"
  by (simp add: euclid_def)

lemma euclid_cells:
  assumes "(x1, y1) \<in> cells rows cols" "(x2, y2) \<in> cells rows cols"
  shows "euclid (x1 - x2) (y1 - y2) \<le> 2 * real_of_int (rows * cols) - 2"
proof -
  note ne = cells_nonempty[OF assms(1)]
  have "\<bar>x1 - x2\<bar> \<le> rows - 1" "\<bar>y1 - y2\<bar> \<le> cols - 1"
    using assms unfolding cells_def by auto
  then have c: "cheb (x1 - x2) (y1 - y2) \<le> rows * cols - 1"
    using ne unfolding cheb_def by linarith
  have m: "manh (x1 - x2) (y1 - y2) \<le> 2 * cheb (x1 - x2) (y1 - y2)"
    unfolding manh_def cheb_def by arith
  have c0: "0 \<le> cheb (x1 - x2) (y1 - y2)" by (simp add: cheb_def)
  have cr: "real_of_int (cheb (x1 - x2) (y1 - y2)) \<le> real_of_int (rows * cols) - 1"
    using c by linarith
  have mr: "real_of_int (manh (x1 - x2) (y1 - y2)) \<le> 2 * real_of_int (cheb (x1 - x2) (y1 - y2))"
    using m by linarith
  have "(sqrt 2 - 1) * real_of_int (manh (x1 - x2) (y1 - y2))
        \<le> (sqrt 2 - 1) * (2 * real_of_int (cheb (x1 - x2) (y1 - y2)))"
    using mr sqrt2_bounds by (intro mult_left_mono) simp_all
  then have "oct (x1 - x2) (y1 - y2) \<le> sqrt 2 * real_of_int (cheb (x1 - x2) (y1 - y2))"
    by (simp add: oct_def algebra_simps)
  also have "\<dots> \<le> 2 * real_of_int (cheb (x1 - x2) (y1 - y2))"
    using c0 sqrt2_bounds by (intro mult_right_mono) simp_all
  also have "\<dots> \<le> 2 * real_of_int (rows * cols) - 2" using cr by simp
  finally show ?thesis using euclid_le_oct[of "x1 - x2" "y1 - y2"] by linarith
qed

lemma oct_offset_le: "(a, b) \<in> set offsets \<Longrightarrow> 1 \<le> oct a b \<and> oct a b \<le> 2"
proof -
  assume o: "(a, b) \<in> set offsets"
  have "manh a b = 1 \<or> manh a b = 2" using manh_offset_bounds[OF o] by arith
  then show ?thesis
  proof
    assume "manh a b = 1"
    then show ?thesis unfolding oct_offset[OF o] by simp
  next
    assume "manh a b = 2"
    then show ?thesis unfolding oct_offset[OF o] using sqrt2_bounds by simp
  qed
qed

lemma neighbor_node_err:
  fixes F :: "real double_ops"
  assumes acc: "accurate F \<delta> rows cols"
    and good: "good_node \<delta> start goal rows cols C cur" and C: "C \<subseteq> cells rows cols"
    and goal: "goal \<in> cells rows cols"
    and off: "off \<in> set offsets" and tgt: "target cur off \<in> cells rows cols"
  shows "\<bar>node_g (neighbor_node F goal cur off) - (cost cur + oct (fst off) (snd off))\<bar>
           \<le> 2 * \<delta> * (real (moves cur) + 1) \<and>
         \<bar>node_f (neighbor_node F goal cur off) -
            (cost cur + oct (fst off) (snd off) +
             euclid (fst (target cur off) - fst goal) (snd (target cur off) - snd goal))\<bar>
           \<le> 2 * \<delta> * (real (moves cur) + 2)"
proof -
  let ?x = "node_x cur" and ?y = "node_y cur"
  let ?nx = "node_x cur + fst off" and ?ny = "node_y cur + snd off"
  let ?N = "real_of_int (rows * cols)"
  let ?B = "2 * ?N + 1"
  define M where "M = real (moves cur)"
  define a where "a = \<delta> * M"
  define H1 where "H1 = heuristic F ?x ?y ?nx ?ny"
  define H2 where "H2 = heuristic F ?nx ?ny (fst goal) (snd goal)"
  define G where "G = node_g cur"
  define gNew where "gNew = d_add F G H1"
  define fNew where "fNew = d_add F gNew H2"
  define e1 where "e1 = oct (fst off) (snd off)"
  define e2 where "e2 = euclid (?nx - fst goal) (?ny - snd goal)"
  have d0: "0 \<le> \<delta>" and small: "4 * \<delta> * (?N + 1) < sqrt 2 - 1"
    and add: "\<And>a b. \<bar>a\<bar> \<le> ?B \<Longrightarrow> \<bar>b\<bar> \<le> ?B \<Longrightarrow> \<bar>d_add F a b - (a + b)\<bar> \<le> \<delta>"
    and heur: "\<And>x1 y1 x2 y2. in_range x1 y1 rows cols \<Longrightarrow> in_range x2 y2 rows cols \<Longrightarrow>
            \<bar>heuristic F x1 y1 x2 y2 - euclid (x1 - x2) (y1 - y2)\<bar> \<le> \<delta>"
    using acc by (simp_all add: accurate_def)
  have pos: "(?x, ?y) \<in> cells rows cols" using good by (simp add: good_node_def node_pos_def)
  have tg: "(?nx, ?ny) \<in> cells rows cols" using tgt by (simp add: target_def)
  have gl: "(fst goal, snd goal) \<in> cells rows cols" using goal by simp
  have posr: "in_range ?x ?y rows cols" using pos by (simp only: cells_iff)
  have tgr: "in_range ?nx ?ny rows cols" using tg by (simp only: cells_iff)
  have glr: "in_range (fst goal) (snd goal) rows cols" using gl by (simp only: cells_iff)
  have M0: "0 \<le> M" by (simp add: M_def)
  have MN: "M + 1 \<le> ?N" using good_moves[OF good C] by (simp add: M_def)
  have dN: "\<delta> * M \<le> \<delta> * ?N" using MN d0 by (intro mult_left_mono) simp_all
  have "4 * (\<delta> * ?N) + 4 * \<delta> < sqrt 2 - 1" using small by (simp add: algebra_simps)
  then have sm: "4 * (\<delta> * ?N) + 4 * \<delta> < 1" using sqrt2_bounds by linarith
  have a0: "0 \<le> a" using d0 M0 by (simp add: a_def)
  have a1: "4 * a + 4 * \<delta> < 1" using dN sm by (simp add: a_def)
  have ok: "chain_ok start cur" using good by (simp add: good_node_def)
  have cb: "0 \<le> cost cur" "cost cur \<le> 2 * M"
    using cost_bounds[OF ok] M0 by (simp_all add: M_def)
  have Gerr: "\<bar>G - cost cur\<bar> \<le> 2 * a"
    using good by (simp add: good_node_def G_def a_def M_def)
  have offp: "(fst off, snd off) \<in> set offsets" using off by simp
  have e1b: "1 \<le> e1" "e1 \<le> 2" using oct_offset_le[OF offp] by (simp_all add: e1_def)
  have "euclid (?x - ?nx) (?y - ?ny) = euclid (fst off) (snd off)"
    using euclid_minus[of "fst off" "snd off"] by simp
  also have "\<dots> = e1" using euclid_offset[OF offp] by (simp add: e1_def)
  finally have ee: "euclid (?x - ?nx) (?y - ?ny) = e1" .
  have H1err: "\<bar>H1 - e1\<bar> \<le> \<delta>"
    using heur[OF posr tgr] unfolding H1_def ee[symmetric] .
  have e2b: "0 \<le> e2" "e2 \<le> 2 * ?N - 2"
    using euclid_nonneg euclid_cells[OF tg gl] by (simp_all add: e2_def)
  have H2err: "\<bar>H2 - e2\<bar> \<le> \<delta>"
    using heur[OF tgr glr] unfolding H2_def e2_def .
  have GB: "\<bar>G\<bar> \<le> ?B" using Gerr cb MN a1 a0 d0 by linarith
  have H1B: "\<bar>H1\<bar> \<le> ?B" using H1err e1b MN M0 a1 a0 d0 by linarith
  have g1: "\<bar>gNew - (G + H1)\<bar> \<le> \<delta>" unfolding gNew_def using GB H1B by (rule add)
  have gerr: "\<bar>gNew - (cost cur + e1)\<bar> \<le> 2 * a + 2 * \<delta>"
    using g1 Gerr H1err by linarith
  have gB: "\<bar>gNew\<bar> \<le> ?B" using gerr cb e1b MN a1 a0 d0 by linarith
  have H2B: "\<bar>H2\<bar> \<le> ?B" using H2err e2b a1 a0 d0 by linarith
  have f1: "\<bar>fNew - (gNew + H2)\<bar> \<le> \<delta>" unfolding fNew_def using gB H2B by (rule add)
  have ferr: "\<bar>fNew - (cost cur + e1 + e2)\<bar> \<le> 2 * a + 4 * \<delta>"
    using f1 gerr H2err by linarith
  have ng: "node_g (neighbor_node F goal cur off) = gNew"
    by (simp add: neighbor_node_def Let_def gNew_def G_def H1_def)
  have nf: "node_f (neighbor_node F goal cur off) = fNew"
    by (simp add: neighbor_node_def Let_def fNew_def gNew_def G_def H1_def H2_def)
  have t: "euclid (fst (target cur off) - fst goal) (snd (target cur off) - snd goal) = e2"
    by (simp add: target_def e2_def)
  have r1: "2 * \<delta> * (real (moves cur) + 1) = 2 * a + 2 * \<delta>"
    by (simp add: a_def M_def algebra_simps)
  have r2: "2 * \<delta> * (real (moves cur) + 2) = 2 * a + 4 * \<delta>"
    by (simp add: a_def M_def algebra_simps)
  show ?thesis unfolding ng nf t r1 r2 e1_def[symmetric] using gerr ferr by simp
qed

subsection \<open>The invariant of the search on an obstacle-free grid\<close>

text \<open>
  Every queued node is the end of a chain of distinct cells whose stored \<open>g\<close> and \<open>f\<close>
  are within the rounding slack of the chain's exact cost; the recorded node of an open
  cell is queued; and next to a closed cell every open neighbour has a recorded node
  whose \<open>f\<close> is, up to the slack, at most that of the step from the closed cell.
\<close>

definition slack :: "real \<Rightarrow> int \<Rightarrow> int \<Rightarrow> real" where
  "slack \<delta> rows cols = 2 * \<delta> * (real_of_int (rows * cols) + 1)"

definition astar_inv ::
  "real \<Rightarrow> Grid \<Rightarrow> int \<Rightarrow> int \<Rightarrow> Coord \<Rightarrow> Coord \<Rightarrow> real search_state \<Rightarrow> bool" where
  "astar_inv \<delta> g rows cols start goal s \<longleftrightarrow>
     st_grid s = g \<and> closed s \<subseteq> cells rows cols \<and> goal \<notin> closed s \<and>
     (\<forall>n\<in>set (openList s). good_node \<delta> start goal rows cols (closed s) n) \<and>
     (\<forall>c n. allNodes s c = Some n \<longrightarrow>
              node_pos n = c \<and> (c \<notin> closed s \<longrightarrow> n \<in> set (openList s))) \<and>
     (start \<notin> closed s \<longrightarrow> (\<exists>m\<in>set (openList s). node_f m \<le> 0)) \<and>
     (\<forall>a\<in>closed s. \<forall>off\<in>set offsets.
        (fst a + fst off, snd a + snd off) \<in> cells rows cols \<longrightarrow>
        (fst a + fst off, snd a + snd off) \<notin> closed s \<longrightarrow>
        (\<exists>m. allNodes s (fst a + fst off, snd a + snd off) = Some m \<and>
             node_f m \<le> oct (fst a - fst start) (snd a - snd start) + oct (fst off) (snd off)
                        + euclid (fst a + fst off - fst goal) (snd a + snd off - snd goal)
                        + slack \<delta> rows cols))"

lemma slack_nonneg: "accurate F \<delta> rows cols \<Longrightarrow> c \<in> cells rows cols \<Longrightarrow> 0 \<le> slack \<delta> rows cols"
proof -
  assume a: "accurate F \<delta> rows cols" and c: "c \<in> cells rows cols"
  have "0 \<le> rows * cols" using cells_nonempty[OF c] by simp
  then have "0 \<le> real_of_int (rows * cols) + 1" by linarith
  moreover have "0 \<le> \<delta>" using a by (simp add: accurate_def)
  ultimately show ?thesis unfolding slack_def by simp
qed

lemma euclid_triangle3:
  "euclid (a - c) (b - d) \<le> euclid (a - p) (b - r) + euclid (p - c) (r - d)"
proof -
  have "euclid (a - c) (b - d) = euclid ((a - p) + (p - c)) ((b - r) + (r - d))"
    by (rule arg_cong2[where f = euclid]) simp_all
  then show ?thesis using euclid_triangle[of "a - p" "p - c" "b - r" "r - d"] by simp
qed

lemma euclid_sym: "euclid (a - c) (b - d) = euclid (c - a) (d - b)"
proof -
  have "euclid (a - c) (b - d) = euclid (- (c - a)) (- (d - b))"
    by (rule arg_cong2[where f = euclid]) simp_all
  then show ?thesis by (simp only: euclid_minus)
qed

lemma queued_bound:
  fixes F :: "real double_ops"
  assumes acc: "accurate F \<delta> rows cols"
    and inv: "astar_inv \<delta> g rows cols start goal s"
    and st: "start \<in> cells rows cols"
    and q: "q \<in> cells rows cols" "q \<notin> closed s"
  shows "\<exists>m\<in>set (openList s).
           node_f m \<le> oct (fst q - fst start) (snd q - snd start)
                       + euclid (fst q - fst goal) (snd q - snd goal) + slack \<delta> rows cols"
proof (cases "start \<in> closed s")
  case False
  then obtain m where m: "m \<in> set (openList s)" "node_f m \<le> 0"
    using inv by (auto simp: astar_inv_def)
  have "0 \<le> oct (fst q - fst start) (snd q - snd start)
             + euclid (fst q - fst goal) (snd q - snd goal) + slack \<delta> rows cols"
    using oct_nonneg euclid_nonneg slack_nonneg[OF acc st]
    by (simp add: add_nonneg_nonneg)
  then show ?thesis using m by (intro bexI[of _ m]) simp_all
next
  case True
  from frontier[OF True q(2) q(1) st] obtain a off where
    a: "a \<in> closed s" and off: "off \<in> set offsets" and
    bn: "(fst a + fst off, snd a + snd off) \<notin> closed s" and
    bc: "(fst a + fst off, snd a + snd off) \<in> cells rows cols" and
    eq: "oct (fst a - fst start) (snd a - snd start) + oct (fst off) (snd off) +
           oct (fst q - (fst a + fst off)) (snd q - (snd a + snd off))
           = oct (fst q - fst start) (snd q - snd start)"
    by blast
  let ?bx = "fst a + fst off" and ?by = "snd a + snd off"
  from inv a off bc bn obtain m where
    M: "allNodes s (?bx, ?by) = Some m" and
    fm: "node_f m \<le> oct (fst a - fst start) (snd a - snd start) + oct (fst off) (snd off)
                        + euclid (?bx - fst goal) (?by - snd goal) + slack \<delta> rows cols"
    unfolding astar_inv_def by blast
  have mO: "m \<in> set (openList s)" using inv M bn unfolding astar_inv_def by blast
  have "euclid (?bx - fst goal) (?by - snd goal) \<le>
        euclid (?bx - fst q) (?by - snd q) + euclid (fst q - fst goal) (snd q - snd goal)"
    by (rule euclid_triangle3)
  moreover have "euclid (?bx - fst q) (?by - snd q) = euclid (fst q - ?bx) (snd q - ?by)"
    by (rule euclid_sym)
  moreover have "euclid (fst q - ?bx) (snd q - ?by) \<le> oct (fst q - ?bx) (snd q - ?by)"
    by (rule euclid_le_oct)
  ultimately have "node_f m \<le> oct (fst q - fst start) (snd q - snd start)
                       + euclid (fst q - fst goal) (snd q - snd goal) + slack \<delta> rows cols"
    using fm eq by linarith
  then show ?thesis using mO by blast
qed

lemma open_nonempty:
  fixes F :: "real double_ops"
  assumes "accurate F \<delta> rows cols" "astar_inv \<delta> g rows cols start goal s"
    "start \<in> cells rows cols" "goal \<in> cells rows cols"
  shows "openList s \<noteq> []"
proof -
  have "goal \<notin> closed s" using assms(2) by (simp add: astar_inv_def)
  from queued_bound[OF assms(1,2,3,4) this] show ?thesis by auto
qed

lemma popped_optimal:
  fixes F :: "real double_ops"
  assumes acc: "accurate F \<delta> rows cols"
    and inv: "astar_inv \<delta> g rows cols start goal s"
    and st: "start \<in> cells rows cols"
    and cur: "cur \<in> set (openList s)" "\<forall>m\<in>set (openList s). node_f cur \<le> node_f m"
    and un: "node_pos cur \<notin> closed s"
  shows "cost cur = oct (node_x cur - fst start) (node_y cur - snd start) \<and>
         int (moves cur) = cheb (node_x cur - fst start) (node_y cur - snd start)"
proof -
  have good: "good_node \<delta> start goal rows cols (closed s) cur"
    using inv cur(1) by (simp add: astar_inv_def)
  have ok: "chain_ok start cur" using good by (simp add: good_node_def)
  have C: "closed s \<subseteq> cells rows cols" using inv by (simp add: astar_inv_def)
  have pc: "node_pos cur \<in> cells rows cols" using good by (simp add: good_node_def)
  let ?N = "real_of_int (rows * cols)"
  have d0: "0 \<le> \<delta>" and small: "4 * \<delta> * (?N + 1) < sqrt 2 - 1"
    using acc by (simp_all add: accurate_def)
  show ?thesis
  proof (cases "parent cur")
    case None
    have "node_pos cur = start" using chain_ok_root[OF ok None] .
    then have "node_x cur = fst start" "node_y cur = snd start" by (auto simp: node_pos_def)
    moreover have "moves cur = 0" using None by (cases cur) auto
    ultimately show ?thesis
      using cost_root[OF None] by (simp add: oct_def cheb_def manh_def)
  next
    case (Some p)
    let ?o = "oct (node_x cur - fst start) (node_y cur - snd start)"
    let ?h = "euclid (node_x cur - fst goal) (node_y cur - snd goal)"
    from queued_bound[OF acc inv st pc un] obtain m where
      m: "m \<in> set (openList s)" "node_f m \<le> ?o + ?h + slack \<delta> rows cols"
      by (auto simp: node_pos_def)
    have fm: "node_f cur \<le> node_f m" using cur(2) m(1) by blast
    have lo: "cost cur + ?h - 2 * \<delta> * (real (moves cur) + 1) \<le> node_f cur"
      using good Some by (simp add: good_node_def)
    have MN: "real (moves cur) + 1 \<le> ?N" by (rule good_moves[OF good C])
    have "\<delta> * (real (moves cur) + 1) \<le> \<delta> * (?N + 1)"
      using MN d0 by (intro mult_left_mono) simp_all
    then have "2 * \<delta> * (real (moves cur) + 1) \<le> slack \<delta> rows cols"
      by (simp add: slack_def)
    then have "cost cur \<le> ?o + 2 * slack \<delta> rows cols" using lo fm m(2) by linarith
    moreover have "2 * slack \<delta> rows cols < sqrt 2 - 1" using small by (simp add: slack_def)
    ultimately have "cost cur < ?o + (sqrt 2 - 1)" by linarith
    from cost_gap[OF ok this] show ?thesis by simp
  qed
qed

definition free_grid :: "Grid \<Rightarrow> bool" where
  "free_grid g \<longleftrightarrow> rectangular g \<and> (\<forall>row\<in>set g. \<forall>v\<in>set row. v = 0)"

lemma isValid_free:
  assumes "free_grid g"
  shows "isValid x y (grid_rows g) (grid_cols g) g
           = Inr (in_range x y (grid_rows g) (grid_cols g))"
proof (cases "in_range x y (grid_rows g) (grid_cols g)")
  case True
  have "x < int (length g)" using True grid_rows_le[of g] by (simp add: in_range_def)
  then have x: "nat x < length g" using True by (simp add: in_range_def nat_less_iff)
  then have m: "g ! nat x \<in> set g" by simp
  then have l: "length (g ! nat x) = length (g ! 0)"
    using assms by (simp add: free_grid_def rectangular_def)
  have "y < int (length (g ! 0))" using True grid_cols_le[of g] by (simp add: in_range_def)
  then have y: "nat y < length (g ! nat x)" using True l by (simp add: in_range_def nat_less_iff)
  then have "g ! nat x ! nat y \<in> set (g ! nat x)" by simp
  then have "g ! nat x ! nat y = 0" using assms m by (simp add: free_grid_def)
  then show ?thesis using True x y by (simp add: isValid_def in_range_def)
next
  case False
  then show ?thesis by (auto simp: isValid_def in_range_def)
qed

lemma set_pq_remove_other:
  assumes "n \<in> set q" "n \<noteq> q ! i"
  shows "n \<in> set (pq_remove i q)"
proof -
  from assms(1) obtain j where j: "j < length q" "q ! j = n" by (auto simp: in_set_conv_nth)
  then have ji: "j \<noteq> i" using assms(2) by auto
  show ?thesis
  proof (cases "j < i")
    case True
    then have "take i q ! j = n" using j by simp
    moreover have "j < length (take i q)" using True j by simp
    ultimately have "n \<in> set (take i q)" by (metis nth_mem)
    then show ?thesis by (simp add: pq_remove_def)
  next
    case False
    then have gt: "i < j" using ji by simp
    then have "drop (Suc i) q ! (j - Suc i) = n" using j by simp
    moreover have "j - Suc i < length (drop (Suc i) q)" using gt j by simp
    ultimately have "n \<in> set (drop (Suc i) q)" by (metis nth_mem)
    then show ?thesis by (simp add: pq_remove_def)
  qed
qed

lemma expand_members:
  assumes e: "expand F rows cols goal current offsets st = Inr st'"
  shows "(\<forall>n\<in>set (openList st'). n \<in> set (openList st) \<or>
            (\<exists>off\<in>set offsets. pushes F rows cols goal current off st \<and>
                                n = neighbor_node F goal current off)) \<and>
         (\<forall>off\<in>set offsets. pushes F rows cols goal current off st \<longrightarrow>
            neighbor_node F goal current off \<in> set (openList st')) \<and>
         (\<forall>n\<in>set (openList st). n \<in> set (openList st'))"
proof -
  note X = expand_cells[OF e distinct_offsets]
  have X1: "filter (\<lambda>n. node_pos n = target current off) (openList st') =
              filter (\<lambda>n. node_pos n = target current off) (openList st) @
              (if pushes F rows cols goal current off st
               then [neighbor_node F goal current off] else [])"
    if "off \<in> set offsets" for off
    using X that by blast
  have X2: "filter (\<lambda>n. node_pos n = c) (openList st') =
              filter (\<lambda>n. node_pos n = c) (openList st)"
    if "c \<notin> target current ` set offsets" for c
    using X that by blast
  have A: "n \<in> set (openList st) \<or>
            (\<exists>off\<in>set offsets. pushes F rows cols goal current off st \<and>
                                n = neighbor_node F goal current off)"
    if n: "n \<in> set (openList st')" for n
  proof (cases "node_pos n \<in> target current ` set offsets")
    case True
    then obtain off where off: "off \<in> set offsets" "node_pos n = target current off" by auto
    have "n \<in> set (filter (\<lambda>m. node_pos m = target current off) (openList st'))"
      using n off by simp
    then have "n \<in> set (filter (\<lambda>m. node_pos m = target current off) (openList st) @
              (if pushes F rows cols goal current off st
               then [neighbor_node F goal current off] else []))"
      unfolding X1[OF off(1)] .
    then show ?thesis using off(1) by (auto split: if_splits)
  next
    case False
    have "n \<in> set (filter (\<lambda>m. node_pos m = node_pos n) (openList st'))" using n by simp
    then have "n \<in> set (filter (\<lambda>m. node_pos m = node_pos n) (openList st))"
      unfolding X2[OF False] .
    then show ?thesis by simp
  qed
  have B: "neighbor_node F goal current off \<in> set (openList st')"
    if "off \<in> set offsets" "pushes F rows cols goal current off st" for off
  proof -
    have "neighbor_node F goal current off \<in>
          set (filter (\<lambda>n. node_pos n = target current off) (openList st'))"
      unfolding X1[OF that(1)] using that(2) by simp
    then show ?thesis by simp
  qed
  have C: "n \<in> set (openList st')" if "n \<in> set (openList st)" for n
    using expand_frame[OF e] that by auto
  show ?thesis using A B C by blast
qed

lemma good_neighbor:
  fixes F :: "real double_ops"
  assumes acc: "accurate F \<delta> rows cols"
    and good: "good_node \<delta> start goal rows cols C cur" and C: "C \<subseteq> cells rows cols"
    and goal: "goal \<in> cells rows cols"
    and off: "off \<in> set offsets" and tgt: "target cur off \<in> cells rows cols"
    and new: "target cur off \<notin> insert (node_pos cur) C"
  shows "good_node \<delta> start goal rows cols (insert (node_pos cur) C)
           (neighbor_node F goal cur off)"
proof -
  let ?nb = "neighbor_node F goal cur off"
  have par: "parent ?nb = Some cur" by (simp add: neighbor_node_def Let_def)
  have xy: "node_x ?nb = node_x cur + fst off" "node_y ?nb = node_y cur + snd off"
    by (simp_all add: neighbor_node_def Let_def)
  have offp: "(node_x ?nb - node_x cur, node_y ?nb - node_y cur) \<in> set offsets"
    using off by (simp add: xy)
  have okc: "chain_ok start cur" using good by (simp add: good_node_def)
  have ok: "chain_ok start ?nb"
    using okc off by (simp add: neighbor_node_def Let_def)
  have pos: "node_pos ?nb \<in> cells rows cols" using tgt by simp
  have anc: "set (follow_parents (Some cur)) \<subseteq> insert (node_pos cur) C"
    using good by (subst follow_parents_Some) (auto simp: good_node_def)
  have anc': "set (follow_parents (parent ?nb)) \<subseteq> insert (node_pos cur) C"
    using anc par by simp
  have dc: "distinct (follow_parents (Some cur))" using good by (simp add: good_node_def)
  have "node_pos ?nb \<notin> set (follow_parents (Some cur))" using new anc by auto
  then have d: "distinct (follow_parents (Some ?nb))"
    using dc par by (subst follow_parents_Some) simp
  have mv: "real (moves ?nb) = real (moves cur) + 1" using moves_child[OF par] by simp
  have co: "cost ?nb = cost cur + oct (fst off) (snd off)"
    using cost_child[OF par offp] by (simp add: xy)
  have tg: "euclid (node_x ?nb - fst goal) (node_y ?nb - snd goal) =
            euclid (fst (target cur off) - fst goal) (snd (target cur off) - snd goal)"
    by (simp add: xy target_def)
  note err = neighbor_node_err[OF acc good C goal off tgt]
  have g: "\<bar>node_g ?nb - cost ?nb\<bar> \<le> 2 * \<delta> * real (moves ?nb)"
    using err unfolding co mv by simp
  have r: "2 * \<delta> * (real (moves ?nb) + 1) = 2 * \<delta> * (real (moves cur) + 2)"
    unfolding mv by simp
  have f: "\<bar>node_f ?nb - (cost ?nb + euclid (node_x ?nb - fst goal) (node_y ?nb - snd goal))\<bar>
            \<le> 2 * \<delta> * (real (moves ?nb) + 1)"
    using err unfolding co tg r by simp
  have f1: "node_f ?nb \<le> cost ?nb + euclid (node_x ?nb - fst goal) (node_y ?nb - snd goal)
                  + 2 * \<delta> * (real (moves ?nb) + 1)"
    using f by linarith
  have f2: "cost ?nb + euclid (node_x ?nb - fst goal) (node_y ?nb - snd goal)
          - 2 * \<delta> * (real (moves ?nb) + 1) \<le> node_f ?nb"
    using f by linarith
  show ?thesis
    unfolding good_node_def using ok pos d anc' g f1 f2 by blast
qed

lemma pushes_free:
  assumes "free_grid g" "st_grid st = g"
  shows "pushes F (grid_rows g) (grid_cols g) goal cur off st \<longleftrightarrow>
           target cur off \<in> cells (grid_rows g) (grid_cols g) \<and>
           target cur off \<notin> closed st \<and>
           (case allNodes st (target cur off) of
              None \<Rightarrow> True
            | Some old \<Rightarrow> d_less F (node_f (neighbor_node F goal cur off)) (node_f old))"
  unfolding pushes_def assms(2) isValid_free[OF assms(1)]
  by (cases "target cur off") (simp add: cells_iff)

lemma astar_inv_step:
  fixes F :: "real double_ops"
  assumes acc: "accurate F \<delta> rows cols"
    and fg: "free_grid g" and dims: "rows = grid_rows g" "cols = grid_cols g"
    and inv: "astar_inv \<delta> g rows cols start goal s"
    and st: "start \<in> cells rows cols" and gl: "goal \<in> cells rows cols"
    and il: "i < length (openList s)" and top: "i = pq_top_index F tie (openList s)"
    and ng: "node_pos (openList s ! i) \<noteq> goal"
  shows "\<exists>s2. expand F rows cols goal (openList s ! i) offsets
                (s\<lparr>openList := pq_remove i (openList s),
                   closed := insert (node_pos (openList s ! i)) (closed s)\<rparr>) = Inr s2 \<and>
              astar_inv \<delta> g rows cols start goal s2"
proof -
  let ?cur = "openList s ! i"
  let ?q = "node_pos ?cur"
  let ?C1 = "insert ?q (closed s)"
  let ?s1 = "s\<lparr>openList := pq_remove i (openList s), closed := ?C1\<rparr>"
  let ?nb = "neighbor_node F goal ?cur"
  let ?N = "real_of_int (rows * cols)"
  have d0: "0 \<le> \<delta>" and small: "4 * \<delta> * (?N + 1) < sqrt 2 - 1"
    and less: "\<forall>a b. d_less F a b \<longleftrightarrow> a < b"
    using acc by (simp_all add: accurate_def)
  have G: "st_grid s = g" and C: "closed s \<subseteq> cells rows cols" and gC: "goal \<notin> closed s"
    and J2: "\<And>n. n \<in> set (openList s) \<Longrightarrow> good_node \<delta> start goal rows cols (closed s) n"
    and J3: "\<And>c n. allNodes s c = Some n \<Longrightarrow>
               node_pos n = c \<and> (c \<notin> closed s \<longrightarrow> n \<in> set (openList s))"
    and J5: "start \<notin> closed s \<Longrightarrow> \<exists>m\<in>set (openList s). node_f m \<le> 0"
    and J6: "\<And>a off. a \<in> closed s \<Longrightarrow> off \<in> set offsets \<Longrightarrow>
        (fst a + fst off, snd a + snd off) \<in> cells rows cols \<Longrightarrow>
        (fst a + fst off, snd a + snd off) \<notin> closed s \<Longrightarrow>
        \<exists>m. allNodes s (fst a + fst off, snd a + snd off) = Some m \<and>
             node_f m \<le> oct (fst a - fst start) (snd a - snd start) + oct (fst off) (snd off)
                        + euclid (fst a + fst off - fst goal) (snd a + snd off - snd goal)
                        + slack \<delta> rows cols"
    using inv unfolding astar_inv_def by blast+
  have curO: "?cur \<in> set (openList s)" using il by simp
  have good: "good_node \<delta> start goal rows cols (closed s) ?cur" using J2[OF curO] .
  have okc: "chain_ok start ?cur" using good by (simp add: good_node_def)
  have qc: "?q \<in> cells rows cols" using good by (simp add: good_node_def)
  have C1: "?C1 \<subseteq> cells rows cols" using C qc by simp
  have ne: "openList s \<noteq> []" using il by auto
  have mn: "\<forall>m\<in>set (openList s). node_f ?cur \<le> node_f m"
    unfolding top by (rule pq_top_minimal[OF less ne])
  have MN: "real (moves ?cur) + 1 \<le> ?N" by (rule good_moves[OF good C])
  have sl0: "0 \<le> slack \<delta> rows cols" by (rule slack_nonneg[OF acc st])
  have sl1: "2 * slack \<delta> rows cols < sqrt 2 - 1" using small by (simp add: slack_def)
  have rect: "rectangular g" using fg by (simp add: free_grid_def)
  have g1: "st_grid ?s1 = g" using G by simp
  have "in_range (fst goal) (snd goal) (grid_rows g) (grid_cols g)"
    using gl cells_iff[of "fst goal" "snd goal" rows cols] by (simp add: dims)
  then have near: "goal_near rows cols goal"
    unfolding dims by (rule in_grid_goal_near)
  from expand_total[of ?s1 rows cols goal F ?cur offsets] rect g1 dims near
  obtain s2 where e: "expand F rows cols goal ?cur offsets ?s1 = Inr s2" by auto
  note X = expand_cells[OF e distinct_offsets]
  have fr: "closed s2 = ?C1" "st_grid s2 = g" using expand_frame[OF e] g1 by simp_all
  have M2t: "allNodes s2 (target ?cur off) =
              (if pushes F rows cols goal ?cur off ?s1 then Some (?nb off)
               else allNodes s (target ?cur off))"
    if "off \<in> set offsets" for off
  proof -
    have "allNodes s2 (target ?cur off) =
              (if pushes F rows cols goal ?cur off ?s1 then Some (?nb off)
               else allNodes ?s1 (target ?cur off))"
      using X that by blast
    then show ?thesis by simp
  qed
  have M2o: "allNodes s2 c = allNodes s c" if "c \<notin> target ?cur ` set offsets" for c
  proof -
    have "allNodes s2 c = allNodes ?s1 c" using X that by blast
    then show ?thesis by simp
  qed
  note mem = expand_members[OF e]
  have pf: "pushes F rows cols goal ?cur off ?s1 \<longleftrightarrow>
           target ?cur off \<in> cells rows cols \<and> target ?cur off \<notin> ?C1 \<and>
           (case allNodes s (target ?cur off) of
              None \<Rightarrow> True
            | Some old \<Rightarrow> node_f (?nb off) < node_f old)" for off
    using pushes_free[OF fg g1, of F goal ?cur off] less unfolding dims
    by (auto split: option.splits)
  \<comment> \<open>recorded nodes only improve\<close>
  have dec: "\<exists>m. allNodes s2 b = Some m \<and> node_f m \<le> node_f m0"
    if "allNodes s b = Some m0" for b m0
  proof (cases "b \<in> target ?cur ` set offsets")
    case True
    then obtain off where off: "off \<in> set offsets" "b = target ?cur off" by auto
    show ?thesis
    proof (cases "pushes F rows cols goal ?cur off ?s1")
      case True
      then have "node_f (?nb off) < node_f m0" using pf[of off] that off(2) by simp
      then show ?thesis using M2t[OF off(1)] True off(2) by simp
    next
      case False
      then show ?thesis using M2t[OF off(1)] that off(2) by simp
    qed
  next
    case False
    then show ?thesis using M2o[OF False] that by simp
  qed
  \<comment> \<open>the start cell is closed after the step\<close>
  have sC: "start \<in> ?C1"
  proof (rule ccontr)
    assume n: "start \<notin> ?C1"
    then have "start \<notin> closed s" and sq: "start \<noteq> ?q" by auto
    from J5[OF this(1)] obtain m where m: "m \<in> set (openList s)" "node_f m \<le> 0" by blast
    have f0: "node_f ?cur \<le> 0" using mn m by force
    show False
    proof (cases "parent ?cur")
      case None
      then show False using chain_ok_root[OF okc None] sq by simp
    next
      case (Some p)
      have lo: "cost ?cur + euclid (node_x ?cur - fst goal) (node_y ?cur - snd goal)
                  - 2 * \<delta> * (real (moves ?cur) + 1) \<le> node_f ?cur"
        using good Some by (simp add: good_node_def)
      have "1 \<le> real (moves ?cur)" using moves_child[OF Some] by simp
      then have c1: "1 \<le> cost ?cur" using cost_bounds[OF okc] by linarith
      have "\<delta> * (real (moves ?cur) + 1) \<le> \<delta> * (?N + 1)"
        using MN d0 by (intro mult_left_mono) simp_all
      then have "2 * \<delta> * (real (moves ?cur) + 1) \<le> slack \<delta> rows cols"
        by (simp add: slack_def)
      then show False
        using lo f0 c1 sl1 sl0 sqrt2_bounds euclid_nonneg[of "node_x ?cur - fst goal" "node_y ?cur - snd goal"]
        by linarith
    qed
  qed
  \<comment> \<open>the invariant, part by part\<close>
  have I1: "st_grid s2 = g \<and> closed s2 \<subseteq> cells rows cols \<and> goal \<notin> closed s2"
    using fr C1 gC ng by auto
  have I2: "good_node \<delta> start goal rows cols (closed s2) n" if n: "n \<in> set (openList s2)" for n
  proof -
    from mem n consider
      (old) "n \<in> set (pq_remove i (openList s))" |
      (new) off where "off \<in> set offsets" "pushes F rows cols goal ?cur off ?s1" "n = ?nb off"
      by auto
    then show ?thesis
    proof cases
      case old
      then have "n \<in> set (openList s)" using set_pq_remove by blast
      from good_node_mono[OF J2[OF this], of ?C1] show ?thesis unfolding fr by auto
    next
      case new
      have t: "target ?cur off \<in> cells rows cols" "target ?cur off \<notin> ?C1"
        using new(2) pf[of off] by simp_all
      show ?thesis unfolding fr new(3)
        by (rule good_neighbor[OF acc good C gl new(1) t])
    qed
  qed
  have I3: "node_pos n = c \<and> (c \<notin> closed s2 \<longrightarrow> n \<in> set (openList s2))"
    if M: "allNodes s2 c = Some n" for c n
  proof -
    consider (pushed) off where "off \<in> set offsets" "c = target ?cur off"
        "pushes F rows cols goal ?cur off ?s1"
      | (same) "allNodes s2 c = allNodes s c"
    proof (cases "c \<in> target ?cur ` set offsets")
      case True
      then obtain off where off: "off \<in> set offsets" "c = target ?cur off" by auto
      show ?thesis
      proof (cases "pushes F rows cols goal ?cur off ?s1")
        case True
        then show ?thesis using off pushed by blast
      next
        case False
        then show ?thesis using M2t[OF off(1)] off(2) same by simp
      qed
    next
      case False
      then show ?thesis using M2o same by blast
    qed
    then show ?thesis
    proof cases
      case pushed
      have "n = ?nb off" using M M2t[OF pushed(1)] pushed(2,3) by simp
      moreover have "?nb off \<in> set (openList s2)" using mem pushed(1,3) by blast
      ultimately show ?thesis using pushed(2) by simp
    next
      case same
      then have Mo: "allNodes s c = Some n" using M by simp
      note o = J3[OF Mo]
      have "n \<in> set (openList s2)" if nc: "c \<notin> closed s2"
      proof -
        have "c \<notin> closed s" "c \<noteq> ?q" using nc fr by auto
        then have "n \<in> set (openList s)" "n \<noteq> ?cur" using o by auto
        then have "n \<in> set (pq_remove i (openList s))" by (rule set_pq_remove_other)
        then show ?thesis using mem by simp
      qed
      then show ?thesis using o by simp
    qed
  qed
  have I5: "start \<notin> closed s2 \<longrightarrow> (\<exists>m\<in>set (openList s2). node_f m \<le> 0)"
    using sC fr by simp
  have I6: "\<exists>m. allNodes s2 (fst a + fst off, snd a + snd off) = Some m \<and>
             node_f m \<le> oct (fst a - fst start) (snd a - snd start) + oct (fst off) (snd off)
                        + euclid (fst a + fst off - fst goal) (snd a + snd off - snd goal)
                        + slack \<delta> rows cols"
    if a: "a \<in> closed s2" and off: "off \<in> set offsets"
      and bc: "(fst a + fst off, snd a + snd off) \<in> cells rows cols"
      and bn: "(fst a + fst off, snd a + snd off) \<notin> closed s2" for a off
  proof (cases "a \<in> closed s")
    case True
    have "(fst a + fst off, snd a + snd off) \<notin> closed s" using bn fr by auto
    from J6[OF True off bc this] obtain m0 where
      m0: "allNodes s (fst a + fst off, snd a + snd off) = Some m0"
          "node_f m0 \<le> oct (fst a - fst start) (snd a - snd start) + oct (fst off) (snd off)
                        + euclid (fst a + fst off - fst goal) (snd a + snd off - snd goal)
                        + slack \<delta> rows cols"
      by blast
    from dec[OF m0(1)] obtain m where
      "allNodes s2 (fst a + fst off, snd a + snd off) = Some m" "node_f m \<le> node_f m0"
      by blast
    then show ?thesis using m0(2) by (intro exI[of _ m]) simp
  next
    case False
    then have aq: "a = ?q" and qn: "?q \<notin> closed s" using a fr by auto
    have axy: "fst a = node_x ?cur" "snd a = node_y ?cur" using aq by (simp_all add: node_pos_def)
    have tb: "target ?cur off = (fst a + fst off, snd a + snd off)"
      by (simp add: target_def axy)
    have tc: "target ?cur off \<in> cells rows cols" "target ?cur off \<notin> ?C1"
      using bc bn fr tb by simp_all
    from popped_optimal[OF acc inv st curO mn qn] have
      opt: "cost ?cur = oct (fst a - fst start) (snd a - snd start)"
      by (simp add: axy)
    note err = neighbor_node_err[OF acc good C gl off tc(1)]
    have "\<delta> * (real (moves ?cur) + 2) \<le> \<delta> * (?N + 1)"
      using MN d0 by (intro mult_left_mono) simp_all
    then have "2 * \<delta> * (real (moves ?cur) + 2) \<le> slack \<delta> rows cols"
      by (simp add: slack_def)
    moreover have "\<bar>node_f (?nb off) -
            (oct (fst a - fst start) (snd a - snd start) + oct (fst off) (snd off) +
             euclid (fst a + fst off - fst goal) (snd a + snd off - snd goal))\<bar>
           \<le> 2 * \<delta> * (real (moves ?cur) + 2)"
      using err unfolding opt tb by simp
    ultimately have fb: "node_f (?nb off) \<le> oct (fst a - fst start) (snd a - snd start)
                        + oct (fst off) (snd off)
                        + euclid (fst a + fst off - fst goal) (snd a + snd off - snd goal)
                        + slack \<delta> rows cols"
      by linarith
    have "\<exists>m. allNodes s2 (target ?cur off) = Some m \<and> node_f m \<le> node_f (?nb off)"
    proof (cases "pushes F rows cols goal ?cur off ?s1")
      case True
      then show ?thesis using M2t[OF off] by simp
    next
      case False
      then obtain old where
        "allNodes s (target ?cur off) = Some old" "\<not> node_f (?nb off) < node_f old"
        using pf[of off] tc by (auto split: option.splits)
      then show ?thesis using M2t[OF off] False by simp
    qed
    then show ?thesis using fb unfolding tb by force
  qed
  have "astar_inv \<delta> g rows cols start goal s2"
    unfolding astar_inv_def using I1 I2 I3 I5 I6 by blast
  then show ?thesis using e by blast
qed

lemma astar_inv_init:
  fixes F :: "real double_ops"
  assumes acc: "accurate F \<delta> rows cols"
    and st: "start \<in> cells rows cols"
  shows "astar_inv \<delta> g rows cols start goal
           \<lparr>st_grid = g,
            openList = pq_push (Node (fst start) (snd start) (d_of_int F 0) (d_of_int F 0)
                          (heuristic F (fst start) (snd start) (fst goal) (snd goal)) None) [],
            closed = {},
            allNodes = [start \<mapsto> Node (fst start) (snd start) (d_of_int F 0) (d_of_int F 0)
                          (heuristic F (fst start) (snd start) (fst goal) (snd goal)) None],
            allocated = [Node (fst start) (snd start) (d_of_int F 0) (d_of_int F 0)
                          (heuristic F (fst start) (snd start) (fst goal) (snd goal)) None]\<rparr>"
proof -
  let ?n = "Node (fst start) (snd start) (d_of_int F 0) (d_of_int F 0)
              (heuristic F (fst start) (snd start) (fst goal) (snd goal)) None"
  have d0: "0 \<le> \<delta>" and z: "d_of_int F 0 = 0" using acc by (simp_all add: accurate_def)
  have c0: "\<And>f g h. cost (Node (fst start) (snd start) f g h None :: real Node) = 0"
    by (simp add: cost_def)
  have e0: "0 \<le> euclid (fst start - fst goal) (snd start - snd goal)" by (rule euclid_nonneg)
  have "good_node \<delta> start goal rows cols {} ?n"
    unfolding good_node_def using st d0 e0 by (simp add: node_pos_def z c0)
  then show ?thesis
    unfolding astar_inv_def by (auto simp: pq_push_def z node_pos_def)
qed

text \<open>
  C4. On an obstacle-free rectangular grid, for a start and a goal inside it, the search
  returns a path, and the path has
  \<open>max \<bar>goal.row - start.row\<bar> \<bar>goal.col - start.col\<bar> + 1\<close> coordinates, whatever the
  queue does with ties. The arithmetic on doubles may round, within the bound \<open>\<delta>\<close>
  described above.
\<close>

theorem open_grid_path_length:
  fixes F :: "real double_ops"
  assumes rect: "rectangular g" and free: "\<forall>row\<in>set g. \<forall>v\<in>set row. v = 0"
    and start: "in_range (fst start) (snd start) (grid_rows g) (grid_cols g)"
    and goal: "in_range (fst goal) (snd goal) (grid_rows g) (grid_cols g)"
    and d0: "0 \<le> \<delta>"
    and small: "4 * \<delta> * (real_of_int (grid_rows g * grid_cols g) + 1) < sqrt 2 - 1"
    and zero: "d_of_int F 0 = 0"
    and less: "\<forall>a b. d_less F a b \<longleftrightarrow> a < b"
    and add: "\<forall>a b. \<bar>a\<bar> \<le> 2 * real_of_int (grid_rows g * grid_cols g) + 1 \<longrightarrow>
                   \<bar>b\<bar> \<le> 2 * real_of_int (grid_rows g * grid_cols g) + 1 \<longrightarrow>
                   \<bar>d_add F a b - (a + b)\<bar> \<le> \<delta>"
    and heur: "\<forall>x1 y1 x2 y2.
                   in_range x1 y1 (grid_rows g) (grid_cols g) \<longrightarrow>
                   in_range x2 y2 (grid_rows g) (grid_cols g) \<longrightarrow>
                   \<bar>heuristic F x1 y1 x2 y2 -
                     sqrt (real_of_int ((x1 - x2) * (x1 - x2) + (y1 - y2) * (y1 - y2)))\<bar> \<le> \<delta>"
  shows "\<exists>p. aStarSearch F tie g start goal = Inr p \<and>
             int (length p) = max \<bar>fst goal - fst start\<bar> \<bar>snd goal - snd start\<bar> + 1"
proof -
  let ?rows = "grid_rows g" and ?cols = "grid_cols g"
  let ?n = "Node (fst start) (snd start) (d_of_int F 0) (d_of_int F 0)
              (heuristic F (fst start) (snd start) (fst goal) (snd goal)) None"
  let ?st = "\<lparr>st_grid = g, openList = pq_push ?n [], closed = {}, allNodes = [start \<mapsto> ?n],
             allocated = [?n]\<rparr>"
  let ?I = "astar_inv \<delta> g ?rows ?cols start goal"
  let ?Q = "\<lambda>(s :: real search_state) (r :: real Node option).
              \<exists>n. r = Some n \<and>
                  int (moves n) = cheb (fst goal - fst start) (snd goal - snd start)"
  have acc: "accurate F \<delta> ?rows ?cols"
    unfolding accurate_def euclid_def using d0 small zero less add heur by blast
  have fg: "free_grid g" using rect free by (simp add: free_grid_def)
  have sc: "start \<in> cells ?rows ?cols" using start cells_iff[of "fst start" "snd start"] by simp
  have gc: "goal \<in> cells ?rows ?cols" using goal cells_iff[of "fst goal" "snd goal"] by simp
  have gne: "g \<noteq> []" using start by (auto simp: in_range_def)
  have "\<exists>st' r. search_loop F tie ?rows ?cols goal ?st = Inr (st', r) \<and> ?Q st' r"
  proof (rule search_loop_total[where I = ?I and Q = ?Q])
    show "?I ?st" by (rule astar_inv_init[OF acc sc])
  next
    fix s :: "real search_state"
    assume "?I s" "openList s = []"
    then show "?Q s None" using open_nonempty[OF acc _ sc gc] by blast
  next
    fix s :: "real search_state" and i
    assume inv: "?I s" and il: "i < length (openList s)"
      and pg: "node_pos (openList s ! i) = goal"
      and top: "i = pq_top_index F tie (openList s)"
    let ?cur = "openList s ! i"
    have ne: "openList s \<noteq> []" using il by auto
    have mn: "\<forall>m\<in>set (openList s). node_f ?cur \<le> node_f m"
      unfolding top by (rule pq_top_minimal[OF less ne])
    have un: "node_pos ?cur \<notin> closed s" using inv pg by (simp add: astar_inv_def)
    have curO: "?cur \<in> set (openList s)" using il by simp
    from popped_optimal[OF acc inv sc curO mn un] pg
    have "int (moves ?cur) = cheb (fst goal - fst start) (snd goal - snd start)"
      by (auto simp: node_pos_def)
    then show "?Q (s\<lparr>openList := pq_remove i (openList s)\<rparr>) (Some ?cur)" by blast
  next
    fix s :: "real search_state" and i
    assume inv: "?I s" and il: "i < length (openList s)"
      and ng: "node_pos (openList s ! i) \<noteq> goal"
      and top: "i = pq_top_index F tie (openList s)"
    let ?cur = "openList s ! i"
    have "good_node \<delta> start goal ?rows ?cols (closed s) ?cur"
      using inv il by (simp add: astar_inv_def)
    then have "node_pos ?cur \<in> cells ?rows ?cols" by (simp add: good_node_def)
    then have "in_range (node_x ?cur) (node_y ?cur) ?rows ?cols"
      by (simp add: node_pos_def cells_iff)
    then show "in_range (node_x ?cur) (node_y ?cur) ?rows ?cols \<and>
               (\<exists>s2. expand F ?rows ?cols goal ?cur offsets
                        (s\<lparr>openList := pq_remove i (openList s),
                           closed := insert (node_pos ?cur) (closed s)\<rparr>) = Inr s2 \<and> ?I s2)"
      using astar_inv_step[OF acc fg refl refl inv sc gc il top ng] by blast
  qed
  then obtain st' n where
    run: "search_loop F tie ?rows ?cols goal ?st = Inr (st', Some n)" and
    mv: "int (moves n) = cheb (fst goal - fst start) (snd goal - snd start)"
    by blast
  have "\<not> (?rows < 0 \<or> ?cols < 0)" using start by (simp add: in_range_def)
  moreover have "heuristic_ok (fst start) (snd start) (fst goal) (snd goal)"
    using in_grid_goal_near[OF goal] start by (rule goal_near_ok)
  ultimately have "aStarSearch F tie g start goal = Inr (reconstructPath (Some n))"
    using run gne start by (simp add: aStarSearch_def aStarSearch_run_def Let_def)
  moreover have "int (length (reconstructPath (Some n))) =
                 max \<bar>fst goal - fst start\<bar> \<bar>snd goal - snd start\<bar> + 1"
    using mv by (simp add: reconstructPath_def length_follow_parents cheb_def)
  ultimately show ?thesis by blast
qed

theorem open_grid_path_length_witness:
  "\<exists>p. aStarSearch exact_ops tie_first [[0, 0, 0], [0, 0, 0], [0, 0, 0]] (0, 0) (2, 1) = Inr p \<and>
       int (length p) = 3"
  using open_grid_path_length [of "[[0, 0, 0], [0, 0, 0], [0, 0, 0]]" "(0, 0)" "(2, 1)" 0
          exact_ops tie_first]
  by (simp add: rectangular_def in_range_def heuristic_def exact_ops_def grid_rows_def
        grid_cols_def size_to_int_def)


section \<open>Nodes that stay allocated\<close>

lemma sqrt_9: "sqrt 9 = 3"
  using real_sqrt_abs[of 3] by simp

lemma sqrt2_gt: "4 / 3 < sqrt 2"
  by (rule real_less_rsqrt) (simp add: power2_eq_square)

lemma sqrt10_bounds: "3 < sqrt 10" "sqrt 10 < 4"
proof -
  show "3 < sqrt 10" by (rule real_less_rsqrt) simp
  show "sqrt 10 < 4" by (rule real_less_lsqrt) simp_all
qed

lemma cells_3_4:
  "List.product (map int [0..<3]) (map int [0..<4]) =
     [(0, 0), (0, 1), (0, 2), (0, 3), (1, 0), (1, 1), (1, 2), (1, 3),
      (2, 0), (2, 1), (2, 2), (2, 3)]"
  by code_simp

text \<open>
  C9. The search leaves the grid as it was, but not all of its nodes are released. The
  clean up deletes the nodes \<^verbatim>\<open>allNodes\<close> points to when the search stops. Line 119
  overwrites the entry of a cell whose node is replaced, so the replaced node is not
  among them and is still allocated when \<^verbatim>\<open>aStarSearch\<close> has returned.

  On the grid below, from \<open>(0, 0)\<close> to \<open>(1, 3)\<close>: cell \<open>(2, 0)\<close> is first reached from
  \<open>(1, 1)\<close>, at cost \<open>2 * sqrt 2\<close>, then from \<open>(1, 0)\<close>, at cost 2, and its node is
  replaced. The search returns the path \<open>(0, 0), (1, 1), (0, 2), (1, 3)\<close>; 7 nodes
  were created, the clean up deletes 6, and the first node of \<open>(2, 0)\<close> remains. At
  every extraction the least \<open>f\<close> is that of one node only, so this holds whatever the
  queue does with ties.
\<close>

theorem replaced_node_leaks:
  "aStarSearch exact_ops tie [[0, 1, 0, 1], [0, 0, 1, 0], [0, 1, 1, 1]] (0, 0) (1, 3) =
     Inr [(0, 0), (1, 1), (0, 2), (1, 3)] \<and>
   (\<exists>st. aStarSearch_final exact_ops tie [[0, 1, 0, 1], [0, 0, 1, 0], [0, 1, 1, 1]] (0, 0) (1, 3)
           = Inr st \<and>
         st_grid st = [[0, 1, 0, 1], [0, 0, 1, 0], [0, 1, 1, 1]] \<and>
         allocated st =
           [Node 2 0 (2 * sqrt 2 + sqrt 10) (2 * sqrt 2) (sqrt 10)
              (Some (Node 1 1 (sqrt 2 + 2) (sqrt 2) 2 (Some (Node 0 0 0 0 (sqrt 10) None))))])"
  using sqrt2_gt sqrt2_lt sqrt10_bounds
  by (simp add: eval_defs sqrt_9 aStarSearch_final_def cleanup_def delete_node_def cells_3_4)

end
